theory Spec2Isabelle
  imports Complex_Main "HOL-Library.Word"
begin

section \<open>Values of the host language\<close>

text \<open>
  The client is TypeScript. The text of the event stream is modelled as \<open>string\<close> (one
  \<open>char\<close> per code unit), a transport chunk as the list of its bytes; the markdown
  that \<open>parseSections\<close> takes is a list of 16-bit code units (section \<open>parseSections\<close>), and a parsed JSON document as the datatype \<open>json\<close>. A property read that
  finds nothing gives \<open>undefined\<close>, modelled as \<open>None\<close>.
\<close>

datatype json =
    JNull
  | JBool bool
  | JNum real
  | JStr string
  | JArr "json list"
  | JObj "(string \<times> json) list"

text \<open>
  The errors the service layer can raise. \<open>APIError\<close> carries the fields of the class
  \<open>APIError\<close>: the message, which the \<open>Error\<close> constructor has turned into a string,
  the status, and the detail as it was passed.
\<close>

datatype js_error =
    APIError string nat "json option"
  | NoResponseBody
  | SyntaxError
  | TypeError
  | TransportError

text \<open>
  \<open>v.k\<close> for the keys the client reads (\<open>error\<close>, \<open>detail\<close>, \<open>type\<close>, \<open>data\<close>,
  \<open>similarity_score\<close>): reading a property of \<open>null\<close> throws a TypeError, an object
  gives its own property, and every other JSON value (boolean, number, string, array)
  gives \<open>undefined\<close>, since no built-in prototype defines these keys.
\<close>

fun get_prop :: "json \<Rightarrow> string \<Rightarrow> js_error + json option" where
  "get_prop JNull k = Inl TypeError"
| "get_prop (JObj kvs) k = Inr (map_of kvs k)"
| "get_prop v k = Inr None"

text \<open>Truthiness, and \<open>a || b\<close> with a JSON value on the right.\<close>

fun truthy :: "json option \<Rightarrow> bool" where
  "truthy None = False"
| "truthy (Some JNull) = False"
| "truthy (Some (JBool b)) = b"
| "truthy (Some (JNum x)) = (x \<noteq> 0)"
| "truthy (Some (JStr s)) = (s \<noteq> [])"
| "truthy (Some (JArr xs)) = True"
| "truthy (Some (JObj kvs)) = True"

definition js_or :: "json option \<Rightarrow> json \<Rightarrow> json" where
  "js_or a b = (case a of None \<Rightarrow> b | Some v \<Rightarrow> if truthy (Some v) then v else b)"

section \<open>String operations used by the stream reader\<close>

definition newline :: char where
  "newline = CHR 0x0A"

text \<open>
  \<open>s.split\<close> at the line feed: never empty, the last element is the text after the last
  line feed.
\<close>

fun split_nl :: "string \<Rightarrow> string list" where
  "split_nl [] = [[]]"
| "split_nl (c # cs) =
     (if c = newline then [] # split_nl cs
      else (case split_nl cs of [] \<Rightarrow> [[c]] | l # ls \<Rightarrow> (c # l) # ls))"

text \<open>\<open>lines.pop()\<close>: the removed last element (\<open>undefined\<close> on an empty array) and the rest.\<close>

definition pop :: "'a list \<Rightarrow> 'a option \<times> 'a list" where
  "pop xs = (if xs = [] then (None, []) else (Some (last xs), butlast xs))"

text \<open>\<open>x || s\<close> with the empty string for \<open>s\<close>, for a string or \<open>undefined\<close>.\<close>

definition or_empty :: "string option \<Rightarrow> string" where
  "or_empty x = (case x of None \<Rightarrow> [] | Some s \<Rightarrow> (if s = [] then [] else s))"

definition startsWith :: "string \<Rightarrow> string \<Rightarrow> bool" where
  "startsWith line p = (take (length p) line = p)"

definition slice_from :: "string \<Rightarrow> nat \<Rightarrow> string" where
  "slice_from line n = drop n line"

section \<open>The platform and the HTTP response\<close>

text \<open>
  \<open>JSON.parse\<close>, \<open>TextDecoder\<close> and the arithmetic of numbers belong to the platform,
  not to the repository: they are parameters. \<open>json_parse\<close> gives \<open>None\<close> where
  \<open>JSON.parse\<close> throws a SyntaxError. \<open>decode\<close> is
  \<open>decoder.decode(value, {stream: true})\<close>: from the decoder's state and a chunk of
  bytes, the decoded text and the next state.

  A number is a double, modelled by the real it denotes; an infinite double is modelled
  by any real beyond the bounds it is compared with, and \<open>NaN\<close> by \<open>None\<close>.
  \<open>number_string\<close> is the conversion of a number to a string, \<open>to_number\<close> the
  conversion to a number of a JSON value that is not a number (\<open>None\<close> for \<open>NaN\<close>),
  and \<open>multiply\<close> the product of two doubles, rounded to a double.
\<close>

record 'd platform =
  json_parse :: "string \<Rightarrow> json option"
  decode :: "'d \<Rightarrow> string \<Rightarrow> string \<times> 'd"
  decoder_init :: 'd
  number_string :: "real \<Rightarrow> string"
  to_number :: "json \<Rightarrow> real option"
  multiply :: "real \<Rightarrow> real \<Rightarrow> real"

text \<open>
  The conversion of a JSON value to a string, as the \<open>Error\<close> constructor applies it to
  its message: an array is the list of its elements joined by commas, with nothing for
  \<open>null\<close>; an object has no text of its own.
\<close>

fun join_comma :: "string list \<Rightarrow> string" where
  "join_comma [] = []"
| "join_comma [s] = s"
| "join_comma (s # t # ss) = s @ '','' @ join_comma (t # ss)"

fun js_string :: "(real \<Rightarrow> string) \<Rightarrow> json \<Rightarrow> string" where
  "js_string ns JNull = ''null''"
| "js_string ns (JBool b) = (if b then ''true'' else ''false'')"
| "js_string ns (JNum x) = ns x"
| "js_string ns (JStr s) = s"
| "js_string ns (JArr xs) = join_comma (map (\<lambda>v. if v = JNull then [] else js_string ns v) xs)"
| "js_string ns (JObj kvs) = ''[object Object]''"

text \<open>
  The body reader of a response: the chunks \<open>reader.read()\<close> resolves to, in order, and
  how the reads end (\<open>done: true\<close>, or a rejected read).
\<close>

datatype stream_end = EndOfStream | ReadRejected

record transport =
  chunks :: "string list"
  ending :: stream_end

text \<open>
  What \<open>fetch\<close> resolved to: \<open>json_body\<close> is the result of \<open>response.json()\<close>
  (\<open>None\<close> when it rejects), \<open>body\<close> the reader of \<open>response.body\<close> (\<open>None\<close> when
  there is no body).
\<close>

record response =
  ok :: bool
  status :: nat
  statusText :: string
  json_body :: "json option"
  body :: "transport option"

section \<open>handleResponse and the non-streaming endpoints\<close>

definition handleResponse :: "'d platform \<Rightarrow> response \<Rightarrow> js_error + json" where
  "handleResponse env r =
     (if \<not> ok r then
        (let error = (case json_body r of
                        None \<Rightarrow> JObj [(''error'', JStr ''Unknown error''),
                                       (''detail'', JStr (statusText r))]
                      | Some v \<Rightarrow> v)
         in case get_prop error ''error'' of
              Inl e \<Rightarrow> Inl e
            | Inr m \<Rightarrow>
                (case get_prop error ''detail'' of
                   Inl e \<Rightarrow> Inl e
                 | Inr d \<Rightarrow>
                     Inl (APIError (js_string (number_string env) (js_or m (JStr ''API Error'')))
                            (status r) d)))
      else (case json_body r of None \<Rightarrow> Inl SyntaxError | Some v \<Rightarrow> Inr v))"

text \<open>Each endpoint hands the response of its request to \<open>handleResponse\<close>.\<close>

definition checkHealth :: "'d platform \<Rightarrow> response \<Rightarrow> js_error + json" where
  "checkHealth env r = handleResponse env r"

definition uploadDocument :: "'d platform \<Rightarrow> response \<Rightarrow> js_error + json" where
  "uploadDocument env r = handleResponse env r"

definition query :: "'d platform \<Rightarrow> response \<Rightarrow> js_error + json" where
  "query env r = handleResponse env r"

definition deleteDocument :: "'d platform \<Rightarrow> response \<Rightarrow> js_error + json" where
  "deleteDocument env r = handleResponse env r"

section \<open>queryStream\<close>

text \<open>
  The generator is run against a consumer. What can be observed of a run is recorded in a
  \<open>trace\<close>: the events yielded, the payloads handed to \<open>JSON.parse\<close>, the number of
  \<open>reader.read()\<close> calls and the number of \<open>reader.releaseLock()\<close> calls.

  The consumer is a function of the events received so far. After each event it asks for
  the next one (\<open>Next\<close>), or abandons the sequence by calling \<open>return()\<close> on the
  generator (\<open>Return\<close>), as \<open>for await\<close> does when its loop is left early: the generator
  then leaves through its \<open>finally\<close> block. Or it does neither (\<open>Stall\<close>): the generator
  stays suspended at its \<open>yield\<close>.
\<close>

record trace =
  events :: "json list"
  parsed :: "string list"
  reads :: nat
  released :: nat

datatype choice = Next | Return | Stall

type_synonym consumer = "json list \<Rightarrow> choice"

definition pull_all :: consumer where
  "pull_all = (\<lambda>es. Next)"

text \<open>
  How a run ends: the reads ended (\<open>Finished\<close>), the generator returned after a terminal
  event (\<open>Returned\<close>), the consumer closed it (\<open>Abandoned\<close>), it threw, or it was left
  suspended.
\<close>

datatype outcome =
    Finished
  | Returned
  | Abandoned
  | Suspended
  | Threw js_error

definition trace0 :: trace where
  "trace0 = \<lparr>events = [], parsed = [], reads = 0, released = 0\<rparr>"

definition is_terminal :: "json option \<Rightarrow> bool" where
  "is_terminal ty = (ty = Some (JStr ''done'') \<or> ty = Some (JStr ''error''))"

text \<open>
  The \<open>for (const line of lines)\<close> loop. \<open>None\<close>: the loop ran to its end; \<open>Some out\<close>:
  the generator was left from inside the loop.
\<close>

fun for_lines :: "'d platform \<Rightarrow> consumer \<Rightarrow> string list \<Rightarrow> trace \<Rightarrow> outcome option \<times> trace" where
  "for_lines env after [] t = (None, t)"
| "for_lines env after (line # rest) t =
     (if startsWith line ''data: '' then
        (let payload = slice_from line 6;
             t1 = t\<lparr>parsed := parsed t @ [payload]\<rparr>
         in case json_parse env payload of
              None \<Rightarrow> (Some (Threw SyntaxError), t1)
            | Some data \<Rightarrow>
                (let t2 = t1\<lparr>events := events t1 @ [data]\<rparr>
                 in case after (events t2) of
                      Return \<Rightarrow> (Some Abandoned, t2)
                    | Stall \<Rightarrow> (Some Suspended, t2)
                    | Next \<Rightarrow>
                        (case get_prop data ''type'' of
                           Inl e \<Rightarrow> (Some (Threw e), t2)
                         | Inr ty \<Rightarrow>
                             if is_terminal ty then (Some Returned, t2)
                             else for_lines env after rest t2)))
      else for_lines env after rest t)"

text \<open>The \<open>while (true)\<close> loop around \<open>reader.read()\<close>.\<close>

fun read_loop ::
  "'d platform \<Rightarrow> consumer \<Rightarrow> string \<Rightarrow> 'd \<Rightarrow> string list \<Rightarrow> stream_end \<Rightarrow> trace \<Rightarrow> outcome \<times> trace"
where
  "read_loop env after buffer d [] fin t =
     (let t1 = t\<lparr>reads := reads t + 1\<rparr>
      in case fin of
           EndOfStream \<Rightarrow> (Finished, t1)
         | ReadRejected \<Rightarrow> (Threw TransportError, t1))"
| "read_loop env after buffer d (chunk # later) fin t =
     (let t1 = t\<lparr>reads := reads t + 1\<rparr>;
          (decoded, d1) = decode env d chunk;
          buffer1 = buffer @ decoded;
          (popped, lines) = pop (split_nl buffer1);
          buffer2 = or_empty popped
      in case for_lines env after lines t1 of
           (Some out, t2) \<Rightarrow> (out, t2)
         | (None, t2) \<Rightarrow> read_loop env after buffer2 d1 later fin t2)"

text \<open>
  The whole generator, from the response \<open>fetch\<close> resolved to. The \<open>finally\<close> block
  runs when the \<open>try\<close> block is left, whichever way it is left; it does not run while
  the generator is suspended inside it.
\<close>

definition queryStream :: "'d platform \<Rightarrow> consumer \<Rightarrow> response \<Rightarrow> outcome \<times> trace" where
  "queryStream env after r =
     (if \<not> ok r then
        (let error = (case json_body r of
                        None \<Rightarrow> JObj [(''error'', JStr ''Unknown error'')]
                      | Some v \<Rightarrow> v)
         in case get_prop error ''error'' of
              Inl e \<Rightarrow> (Threw e, trace0)
            | Inr m \<Rightarrow>
                (Threw (APIError (js_string (number_string env) (js_or m (JStr ''API Error'')))
                          (status r) None), trace0))
      else (case body r of
              None \<Rightarrow> (Threw NoResponseBody, trace0)
            | Some reader \<Rightarrow>
                (let (out, t) = read_loop env after [] (decoder_init env)
                                  (chunks reader) (ending reader) trace0
                 in (out, if out = Suspended then t else t\<lparr>released := released t + 1\<rparr>))))"

section \<open>The stream as a whole\<close>

text \<open>
  The text the decoder produces for a list of chunks, fed one after the other as the read
  loop does.
\<close>

fun decode_all :: "'d platform \<Rightarrow> 'd \<Rightarrow> string list \<Rightarrow> string" where
  "decode_all env d [] = []"
| "decode_all env d (c # cs) = (let (decoded, d1) = decode env d c in decoded @ decode_all env d1 cs)"

text \<open>How the generator ends when the reads end before any \<open>return\<close> or throw.\<close>

definition end_outcome :: "stream_end \<Rightarrow> outcome" where
  "end_outcome fin = (case fin of EndOfStream \<Rightarrow> Finished | ReadRejected \<Rightarrow> Threw TransportError)"

text \<open>
  The line loop run once over every complete line of a text: what the read loop amounts to
  when all the text is at hand (proved below, up to the number of reads).
\<close>

definition whole_text :: "'d platform \<Rightarrow> consumer \<Rightarrow> string \<Rightarrow> stream_end \<Rightarrow> trace \<Rightarrow> outcome \<times> trace" where
  "whole_text env after txt fin t =
     (case for_lines env after (butlast (split_nl txt)) t of
        (Some out, t1) \<Rightarrow> (out, t1)
      | (None, t1) \<Rightarrow> (end_outcome fin, t1))"

text \<open>A run without its count of reads, which depends on the chunking.\<close>

definition forget_reads :: "outcome \<times> trace \<Rightarrow> outcome \<times> trace" where
  "forget_reads x = (fst x, (snd x)\<lparr>reads := 0\<rparr>)"

definition stream_text :: "'d platform \<Rightarrow> transport \<Rightarrow> string" where
  "stream_text env tr = decode_all env (decoder_init env) (chunks tr)"

text \<open>
  The contract of a decoder in streaming mode: decoding nothing gives nothing, and decoding
  two pieces one after the other gives the text of decoding them at once, so that bytes
  held back at the end of a chunk are completed by the next one.
\<close>

definition stream_decoder :: "'d platform \<Rightarrow> bool" where
  "stream_decoder env \<longleftrightarrow>
     (\<forall>d. decode env d [] = ([], d)) \<and>
     (\<forall>d a b. decode env d (a @ b) =
        (let (t1, d1) = decode env d a; (t2, d2) = decode env d1 b in (t1 @ t2, d2)))"

text \<open>
  The vocabulary of the specification. A frame is a line of the streamed response (a line
  that received its line feed) starting with the event prefix; its classification is the
  structured value of its payload, the text after the prefix, if it has one.
\<close>

definition frames :: "string \<Rightarrow> string list" where
  "frames txt = filter (\<lambda>l. startsWith l ''data: '') (butlast (split_nl txt))"

definition classify :: "'d platform \<Rightarrow> string \<Rightarrow> json option" where
  "classify env frame = json_parse env (slice_from frame 6)"

text \<open>A terminal event: one whose \<open>type\<close> is \<open>done\<close> or \<open>error\<close>.\<close>

definition terminal_event :: "json \<Rightarrow> bool" where
  "terminal_event e = (case get_prop e ''type'' of Inl err \<Rightarrow> False | Inr ty \<Rightarrow> is_terminal ty)"

text \<open>
  The events the specification gives a consumer that pulls everything, from the classified
  frames in order: they stop before the first frame with no classification and after
  the first terminal event.
\<close>

fun delivered :: "json option list \<Rightarrow> json list" where
  "delivered [] = []"
| "delivered (None # cs) = []"
| "delivered (Some e # cs) = (if terminal_event e then [e] else e # delivered cs)"

text \<open>The generator was left at a \<open>yield\<close>, after handing out an event.\<close>

definition left_at_yield :: "outcome \<Rightarrow> bool" where
  "left_at_yield out = (out = Returned \<or> out = Abandoned \<or> out = Suspended)"

text \<open>
  Closing a run of the whole text as the generator does: the count of reads set aside, the
  lock released unless the generator is left suspended.
\<close>

definition close_run :: "outcome \<times> trace \<Rightarrow> outcome \<times> trace" where
  "close_run x = (fst x, (snd x)\<lparr>reads := 0, released := (if fst x = Suspended then 0 else 1)\<rparr>)"

text \<open>The end of a pass over lines: the outcome of the line loop, or the end of the reads.\<close>

definition finish :: "stream_end \<Rightarrow> outcome option \<times> trace \<Rightarrow> outcome \<times> trace" where
  "finish fin x = (case fst x of Some out \<Rightarrow> (out, snd x) | None \<Rightarrow> (end_outcome fin, snd x))"

text \<open>
  \<open>return()\<close> called on the generator after a run. A generator suspended at its
  \<open>yield\<close> is resumed with a return and leaves through its \<open>finally\<close> block; one
  that has completed is not resumed, and nothing runs.
\<close>

definition gen_return :: "outcome \<times> trace \<Rightarrow> outcome \<times> trace" where
  "gen_return x =
     (if fst x = Suspended then (Abandoned, (snd x)\<lparr>released := released (snd x) + 1\<rparr>) else x)"

section \<open>The source list of the query view\<close>

text \<open>
  The submit handler of the query view hands the data of an event of type \<open>sources\<close>
  to \<open>setSources\<close>; the view then renders the elements of that list. \<open>stored_sources\<close>
  is the value stored for an event, \<open>None\<close> when the event stores none or has no data.
\<close>

definition stored_sources :: "json \<Rightarrow> json option" where
  "stored_sources event =
     (case get_prop event ''type'' of
        Inl e \<Rightarrow> None
      | Inr ty \<Rightarrow>
          if ty = Some (JStr ''sources'')
          then (case get_prop event ''data'' of Inl e \<Rightarrow> None | Inr d \<Rightarrow> d)
          else None)"

text \<open>\<open>v ?? d\<close> on the value of a property: \<open>undefined\<close> and \<open>null\<close> give \<open>d\<close>.\<close>

definition nullish_or :: "json option \<Rightarrow> json \<Rightarrow> json" where
  "nullish_or v d = (case v of None \<Rightarrow> d | Some JNull \<Rightarrow> d | Some x \<Rightarrow> x)"

text \<open>
  The number an arithmetic function takes for a JSON value: a number is itself, any other
  value is converted by the platform, to a number or to \<open>NaN\<close> (\<open>None\<close>). A text that
  converts to an infinity is outside the model.
\<close>

definition number_of :: "'d platform \<Rightarrow> json \<Rightarrow> real option" where
  "number_of env v = (case v of JNum x \<Rightarrow> Some x | _ \<Rightarrow> to_number env v)"

text \<open>
  \<open>Math.min\<close>, \<open>Math.max\<close>, the product and \<open>Math.round\<close> on numbers: \<open>NaN\<close> if an
  argument is \<open>NaN\<close>. \<open>Math.round\<close> gives the nearest integer, a half rounded up.
\<close>

definition Math_min :: "real option \<Rightarrow> real option \<Rightarrow> real option" where
  "Math_min a b = (case a of None \<Rightarrow> None | Some x \<Rightarrow> (case b of None \<Rightarrow> None | Some y \<Rightarrow> Some (min x y)))"

definition Math_max :: "real option \<Rightarrow> real option \<Rightarrow> real option" where
  "Math_max a b = (case a of None \<Rightarrow> None | Some x \<Rightarrow> (case b of None \<Rightarrow> None | Some y \<Rightarrow> Some (max x y)))"

definition times :: "'d platform \<Rightarrow> real option \<Rightarrow> real option \<Rightarrow> real option" where
  "times env a b =
     (case a of None \<Rightarrow> None | Some x \<Rightarrow> (case b of None \<Rightarrow> None | Some y \<Rightarrow> Some (multiply env x y)))"

definition Math_round :: "real option \<Rightarrow> int option" where
  "Math_round a = (case a of None \<Rightarrow> None | Some x \<Rightarrow> Some \<lfloor>x + 1 / 2\<rfloor>)"

text \<open>
  The two constants computed for each rendered source; the percentage is what is
  displayed, \<open>None\<close> being displayed as \<open>NaN\<close>.
\<close>

definition similarity :: "'d platform \<Rightarrow> json \<Rightarrow> js_error + real option" where
  "similarity env source =
     (case get_prop source ''similarity_score'' of
        Inl e \<Rightarrow> Inl e
      | Inr v \<Rightarrow> Inr (Math_max (Some 0) (Math_min (Some 1) (number_of env (nullish_or v (JNum 0))))))"

definition percent :: "'d platform \<Rightarrow> json \<Rightarrow> js_error + int option" where
  "percent env source =
     (case similarity env source of
        Inl e \<Rightarrow> Inl e
      | Inr s \<Rightarrow> Inr (Math_round (times env s (Some 100))))"

text \<open>
  The specification's words: a score that is a number, or is missing (\<open>undefined\<close> or
  \<open>null\<close>); its value, 0 when it is missing; and a value clamped into the unit interval.
\<close>

definition numeric_score :: "json option \<Rightarrow> bool" where
  "numeric_score v = (case v of None \<Rightarrow> True | Some JNull \<Rightarrow> True | Some (JNum x) \<Rightarrow> True | Some other \<Rightarrow> False)"

definition score_value :: "json option \<Rightarrow> real" where
  "score_value v = (case v of Some (JNum x) \<Rightarrow> x | _ \<Rightarrow> 0)"

definition clamp01 :: "real \<Rightarrow> real" where
  "clamp01 x = (if x < 0 then 0 else if 1 < x then 1 else x)"

text \<open>
  What is used of the product of doubles: the products of 0 and of 1 with 100 are exact,
  and rounding a product to a double keeps the order.
\<close>

definition double_product :: "'d platform \<Rightarrow> bool" where
  "double_product env \<longleftrightarrow>
     multiply env 0 100 = 0 \<and> multiply env 1 100 = 100 \<and>
     (\<forall>x y. x \<le> y \<longrightarrow> multiply env x 100 \<le> multiply env y 100)"

section \<open>parseSections\<close>

text \<open>
  A string of the language is a sequence of 16-bit code units. \<open>units\<close> writes one from
  a literal of the model, one code unit for each character.
\<close>

type_synonym code_unit = "16 word"

type_synonym code_units = "code_unit list"

definition units :: "string \<Rightarrow> code_units" where
  "units s = map of_char s"

definition hash :: code_unit where
  "hash = 35"

definition line_feed :: code_unit where
  "line_feed = 10"

text \<open>
  White space for \<open>trim\<close> and for the class \<open>\s\<close> of a pattern: the white space and
  the line terminators of the language. These are tab (9), line feed (10), vertical tab
  (11), form feed (12), carriage return (13), space (32), no-break space (160), ogham
  space mark (U+1680, 5760), the spaces U+2000 to U+200A (8192 to 8202), line separator
  (U+2028, 8232), paragraph separator (U+2029, 8233), narrow no-break space (U+202F,
  8239), medium mathematical space (U+205F, 8287), ideographic space (U+3000, 12288) and
  the byte order mark (U+FEFF, 65279). Line feed, carriage return, line separator and
  paragraph separator end a line for \<open>^\<close>, \<open>$\<close> and the dot.
\<close>

definition is_ws :: "code_unit \<Rightarrow> bool" where
  "is_ws c = (c = 9 \<or> c = 10 \<or> c = 11 \<or> c = 12 \<or> c = 13 \<or> c = 32 \<or> c = 160 \<or> c = 5760
              \<or> (8192 \<le> c \<and> c \<le> 8202) \<or> c = 8232 \<or> c = 8233 \<or> c = 8239 \<or> c = 8287
              \<or> c = 12288 \<or> c = 65279)"

definition is_lt :: "code_unit \<Rightarrow> bool" where
  "is_lt c = (c = 10 \<or> c = 13 \<or> c = 8232 \<or> c = 8233)"

definition trim :: "code_units \<Rightarrow> code_units" where
  "trim s = rev (dropWhile is_ws (rev (dropWhile is_ws s)))"

text \<open>
  \<open>s.indexOf\<close> of the line feed from a position (\<open>None\<close> for -1), and \<open>s.slice\<close>
  between two positions that are not negative.
\<close>

definition indexOf_nl :: "code_units \<Rightarrow> nat \<Rightarrow> nat option" where
  "indexOf_nl s from =
     (if length (takeWhile (\<lambda>c. c \<noteq> line_feed) (drop from s)) < length (drop from s)
      then Some (from + length (takeWhile (\<lambda>c. c \<noteq> line_feed) (drop from s)))
      else None)"

definition slice :: "code_units \<Rightarrow> nat \<Rightarrow> nat \<Rightarrow> code_units" where
  "slice s a b = take (b - a) (drop a s)"

text \<open>
  The heading pattern, two hash signs, white space, a captured rest of line, anchored at
  the start and the end of a line, matched at one position. After the hash signs the
  white space takes as many characters as it can and gives them back one by one until the
  capture, which runs to the end of the line, is not empty. The result is the number of
  white-space characters taken and the captured text.
\<close>

fun try_ws :: "nat \<Rightarrow> code_units \<Rightarrow> (nat \<times> code_units) option" where
  "try_ws 0 r = None"
| "try_ws (Suc k) r =
     (if takeWhile (\<lambda>c. \<not> is_lt c) (drop (Suc k) r) \<noteq> []
      then Some (Suc k, takeWhile (\<lambda>c. \<not> is_lt c) (drop (Suc k) r))
      else try_ws k r)"

fun match_here :: "code_units \<Rightarrow> (nat \<times> code_units) option" where
  "match_here (c1 # c2 # r) =
     (if c1 = hash \<and> c2 = hash then try_ws (length (takeWhile is_ws r)) r else None)"
| "match_here r = None"

definition line_start :: "code_units \<Rightarrow> nat \<Rightarrow> bool" where
  "line_start s i = (i = 0 \<or> is_lt (s ! (i - 1)))"

text \<open>
  \<open>headingRegex.exec\<close> with the global flag, from \<open>lastIndex\<close>: the first position at or
  after it where the pattern matches. The result is the index of the match, the captured
  text and the new \<open>lastIndex\<close>, the end of the match.
\<close>

function exec_from :: "code_units \<Rightarrow> nat \<Rightarrow> (nat \<times> code_units \<times> nat) option" where
  "exec_from s i =
     (if i < length s then
        (if line_start s i then
           (case match_here (drop i s) of
              Some (k, cap) \<Rightarrow> Some (i, cap, i + 2 + k + length cap)
            | None \<Rightarrow> exec_from s (Suc i))
         else exec_from s (Suc i))
      else None)"
  by pat_completeness auto
termination
  by (relation "measure (\<lambda>(s, i). length s - i)") auto

declare exec_from.simps [simp del]

record heading_match =
  title :: code_units
  index :: nat

record AnswerSection =
  heading :: code_units
  content :: code_units

text \<open>The \<open>while\<close> loop that collects the matches.\<close>

function collect :: "code_units \<Rightarrow> nat \<Rightarrow> heading_match list" where
  "collect s lastIndex =
     (case exec_from s lastIndex of
        None \<Rightarrow> []
      | Some (idx, cap, e) \<Rightarrow> \<lparr>title = trim cap, index = idx\<rparr> # collect s e)"
  by pat_completeness auto
termination
proof (relation "measure (\<lambda>(s, i). length s - i)")
  show "wf (measure (\<lambda>(s, i). length s - i))" by simp
next
  fix s :: code_units and lastIndex x2 idx y cap e
  assume "exec_from s lastIndex = Some x2" and "(idx, y) = x2" and "(cap, e) = y"
  then have m: "exec_from s lastIndex = Some (idx, cap, e)" by simp
  have "i \<le> a \<and> a < length s \<and> a < c" if "exec_from s i = Some (a, b, c)" for i a b c
    using that
    by (induction s i rule: exec_from.induct)
       (subst (asm) (2) exec_from.simps, auto split: if_splits option.splits)
  from this [OF m] have "length s - e < length s - lastIndex" by arith
  then show "((s, e), (s, lastIndex)) \<in> measure (\<lambda>(s, i). length s - i)" by simp
qed

declare collect.simps [simp del]

definition parseSections :: "code_units \<Rightarrow> AnswerSection list" where
  "parseSections markdown =
     (if trim markdown = [] then []
      else
        (let matches = collect markdown 0 in
         if length matches = 0 then [\<lparr>heading = units ''Answer'', content = markdown\<rparr>]
         else
           map (\<lambda>i.
                  let current = matches ! i;
                      next = (if i + 1 < length matches then Some (matches ! (i + 1)) else None);
                      headingLineEnd = indexOf_nl markdown (index current);
                      start = (case headingLineEnd of None \<Rightarrow> length markdown | Some p \<Rightarrow> p + 1);
                      end = (case next of Some n \<Rightarrow> index n | None \<Rightarrow> length markdown)
                  in \<lparr>heading = title current, content = trim (slice markdown start end)\<rparr>)
               [0..<length matches]))"

text \<open>A position where the pattern matches.\<close>

definition heading_at :: "code_units \<Rightarrow> nat \<Rightarrow> bool" where
  "heading_at s i = (i < length s \<and> line_start s i \<and> match_here (drop i s) \<noteq> None)"

text \<open>The end of the match that starts at a heading position.\<close>

definition match_end :: "code_units \<Rightarrow> nat \<Rightarrow> nat" where
  "match_end s i = (case match_here (drop i s) of Some (k, cap) \<Rightarrow> i + 2 + k + length cap | None \<Rightarrow> i)"

text \<open>Where the content of a section starts: after the first line feed from the match on.\<close>

definition content_start :: "code_units \<Rightarrow> nat \<Rightarrow> nat" where
  "content_start s i = (case indexOf_nl s i of None \<Rightarrow> length s | Some p \<Rightarrow> p + 1)"

text \<open>
  The specification's words. The lines of a text are the pieces between its line
  terminators. A line matches the heading pattern when it is two hash signs, then white
  space, then a heading text that is not empty; since the white space may be a single
  character and the text may hold any character of the line, these are the lines of
  more than three characters that start with two hash signs and a white-space character.
  The heading text is the rest of the line.
\<close>

fun lines_of :: "code_units \<Rightarrow> code_units list" where
  "lines_of [] = [[]]"
| "lines_of (c # cs) =
     (if is_lt c then [] # lines_of cs
      else (case lines_of cs of [] \<Rightarrow> [[c]] | l # ls \<Rightarrow> (c # l) # ls))"

fun heading_line :: "code_units \<Rightarrow> bool" where
  "heading_line (c1 # c2 # c3 # c4 # r) = (c1 = hash \<and> c2 = hash \<and> is_ws c3)"
| "heading_line l = False"

definition heading_text :: "code_units \<Rightarrow> code_units" where
  "heading_text l = drop 2 l"

section \<open>Sample data\<close>

text \<open>
  Payloads as the backend sends them, and \<open>JSON.parse\<close> on them; every other text used
  below is not JSON. The sample decoder is \<open>TextDecoder\<close> on ASCII bytes: one code unit
  per byte, nothing held back.
\<close>

definition quoted :: "string \<Rightarrow> string" where
  "quoted s = CHR 0x22 # s @ [CHR 0x22]"

definition done_payload :: string where
  "done_payload = ''{'' @ quoted ''type'' @ '':'' @ quoted ''done'' @ ''}''"

definition answer_payload :: string where
  "answer_payload = ''{'' @ quoted ''type'' @ '':'' @ quoted ''answer'' @ '','' @ quoted ''data'' @ '':'' @ quoted ''hi'' @ ''}''"

definition sources_payload :: string where
  "sources_payload = ''{'' @ quoted ''type'' @ '':'' @ quoted ''sources'' @ '','' @ quoted ''data'' @ '':[]}''"

text \<open>
  Two \<open>sources\<close> events: one with a score above 1 and a chunk without a score, one
  whose score is the text \<open>high\<close>. Every chunk has the metadata that rendering reads.
\<close>

definition metadata_text :: "string \<Rightarrow> string" where
  "metadata_text k =
     quoted ''metadata'' @ '':{'' @ quoted ''document_id'' @ '':'' @ quoted ''d'' @ '',''
       @ quoted ''chunk_index'' @ '':'' @ k @ ''}''"

definition metadata_value :: "real \<Rightarrow> json" where
  "metadata_value k = JObj [(''document_id'', JStr ''d''), (''chunk_index'', JNum k)]"

definition scored_payload :: string where
  "scored_payload =
     ''{'' @ quoted ''type'' @ '':'' @ quoted ''sources'' @ '','' @ quoted ''data'' @ '':[{''
       @ quoted ''content'' @ '':'' @ quoted ''a'' @ '','' @ metadata_text ''0'' @ '',''
       @ quoted ''similarity_score'' @ '':1.5},{''
       @ quoted ''content'' @ '':'' @ quoted ''b'' @ '','' @ metadata_text ''1'' @ ''}]}''"

definition high_chunk :: json where
  "high_chunk =
     JObj [(''content'', JStr ''a''), (''metadata'', metadata_value 0),
           (''similarity_score'', JNum (3 / 2))]"

definition unscored_chunk :: json where
  "unscored_chunk = JObj [(''content'', JStr ''b''), (''metadata'', metadata_value 1)]"

definition scored_event :: json where
  "scored_event = JObj [(''type'', JStr ''sources''), (''data'', JArr [high_chunk, unscored_chunk])]"

definition text_score_payload :: string where
  "text_score_payload =
     ''{'' @ quoted ''type'' @ '':'' @ quoted ''sources'' @ '','' @ quoted ''data'' @ '':[{''
       @ quoted ''content'' @ '':'' @ quoted ''c'' @ '','' @ metadata_text ''0'' @ '',''
       @ quoted ''similarity_score'' @ '':'' @ quoted ''high'' @ ''}]}''"

definition text_score_chunk :: json where
  "text_score_chunk =
     JObj [(''content'', JStr ''c''), (''metadata'', metadata_value 0),
           (''similarity_score'', JStr ''high'')]"

definition text_score_event :: json where
  "text_score_event = JObj [(''type'', JStr ''sources''), (''data'', JArr [text_score_chunk])]"

definition ping_payload :: string where
  "ping_payload = ''{'' @ quoted ''type'' @ '':'' @ quoted ''ping'' @ ''}''"

definition done_event :: json where
  "done_event = JObj [(''type'', JStr ''done'')]"

definition answer_event :: json where
  "answer_event = JObj [(''type'', JStr ''answer''), (''data'', JStr ''hi'')]"

definition sources_event :: json where
  "sources_event = JObj [(''type'', JStr ''sources''), (''data'', JArr [])]"

definition ping_event :: json where
  "ping_event = JObj [(''type'', JStr ''ping'')]"

definition sample_parse :: "string \<Rightarrow> json option" where
  "sample_parse s =
     (if s = done_payload then Some done_event
      else if s = answer_payload then Some answer_event
      else if s = sources_payload then Some sources_event
      else if s = ping_payload then Some ping_event
      else if s = scored_payload then Some scored_event
      else if s = text_score_payload then Some text_score_event
      else if s = ''null'' then Some JNull
      else None)"

text \<open>
  The conversions on the values of the examples: the strings of 0, 1 and 42, the numbers
  of the booleans and of the empty string, and \<open>NaN\<close> for the text \<open>high\<close>. On the
  operands of the examples the product of doubles is exact.
\<close>

definition sample_number_string :: "real \<Rightarrow> string" where
  "sample_number_string x = (if x = 0 then ''0'' else if x = 1 then ''1'' else if x = 42 then ''42'' else [])"

definition sample_to_number :: "json \<Rightarrow> real option" where
  "sample_to_number v =
     (if v = JBool True then Some 1
      else if v = JBool False \<or> v = JStr [] then Some 0
      else None)"

definition sample_platform :: "unit platform" where
  "sample_platform =
     \<lparr>json_parse = sample_parse, decode = (\<lambda>d bytes. (bytes, d)), decoder_init = (),
      number_string = sample_number_string, to_number = sample_to_number,
      multiply = (\<lambda>x y. x * y)\<rparr>"

definition stream_response :: "string list \<Rightarrow> response" where
  "stream_response cs =
     \<lparr>ok = True, status = 200, statusText = ''OK'', json_body = None,
      body = Some \<lparr>chunks = cs, ending = EndOfStream\<rparr>\<rparr>"

definition frame_line :: "string \<Rightarrow> string" where
  "frame_line payload = ''data: '' @ payload @ [newline]"

text \<open>A \<open>done\<close> frame followed by a frame in the same chunk and by one in a later chunk.\<close>

definition short_circuit_chunks :: "string list" where
  "short_circuit_chunks =
     [frame_line answer_payload @ frame_line done_payload @ frame_line answer_payload,
      frame_line answer_payload]"

text \<open>A line with the prefix whose payload is not JSON.\<close>

definition malformed_line :: string where
  "malformed_line = ''data: {oops''"

text \<open>Consumers that close the sequence, or stop pulling, after the first event.\<close>

definition close_after_first :: consumer where
  "close_after_first = (\<lambda>es. Return)"

definition stall_after_first :: consumer where
  "stall_after_first = (\<lambda>es. Stall)"

text \<open>A response whose reads end with a rejected read.\<close>

definition failing_response :: "string list \<Rightarrow> response" where
  "failing_response cs =
     \<lparr>ok = True, status = 200, statusText = ''OK'', json_body = None,
      body = Some \<lparr>chunks = cs, ending = ReadRejected\<rparr>\<rparr>"

text \<open>Error responses: a structured error document, and the JSON document \<open>null\<close>.\<close>

definition error_response :: response where
  "error_response =
     \<lparr>ok = False, status = 500, statusText = ''Internal Server Error'',
      json_body = Some (JObj [(''error'', JStr ''boom''), (''detail'', JStr ''trace'')]),
      body = None\<rparr>"

definition null_error_response :: response where
  "null_error_response =
     \<lparr>ok = False, status = 500, statusText = ''Internal Server Error'',
      json_body = Some JNull, body = None\<rparr>"

text \<open>
  Markdown: a line of two hash signs and nothing else, followed by a line of text; a
  heading line without a text, a blank line, a heading line and a line of text; white
  space only; two headings, each with a line of text.
\<close>

definition bare_hashes_input :: code_units where
  "bare_hashes_input = units ''##'' @ [line_feed] @ units ''foo''"

definition empty_heading_input :: code_units where
  "empty_heading_input =
     units ''## '' @ [line_feed, line_feed] @ units ''## B'' @ [line_feed] @ units ''bar''"

definition blank_input :: code_units where
  "blank_input = units ''  '' @ [line_feed, 8195, 65279]"

definition two_sections_input :: code_units where
  "two_sections_input =
     units ''## A'' @ [line_feed] @ units ''foo'' @ [line_feed] @ units ''## B'' @ [line_feed]
       @ units ''bar''"

lemmas sample_defs = quoted_def done_payload_def answer_payload_def ping_payload_def done_event_def
  sources_payload_def sources_event_def scored_payload_def scored_event_def text_score_payload_def
  text_score_event_def metadata_text_def
  answer_event_def ping_event_def sample_parse_def sample_platform_def stream_response_def frame_line_def
  newline_def

lemma sample_stream_decoder: "stream_decoder sample_platform"
  by (simp add: stream_decoder_def sample_platform_def)

section \<open>Properties of the line splitter and of the two loops\<close>

lemma split_nl_nonempty: "split_nl s \<noteq> []"
  by (induction s) (auto split: list.splits)

lemma split_nl_append_nl: "split_nl (a @ newline # b) = split_nl a @ split_nl b"
  by (induction a) (auto simp: split_nl_nonempty split: list.splits)

lemma split_nl_no_nl: "newline \<notin> set s \<Longrightarrow> split_nl s = [s]"
  by (induction s) (auto split: list.splits)

lemma split_nl_append:
  "split_nl (a @ b) = butlast (split_nl a) @ split_nl (last (split_nl a) @ b)"
proof (induction a)
  case Nil
  then show ?case by simp
next
  case (Cons c a)
  show ?case
  proof (cases "c = newline")
    case True
    with Cons show ?thesis by (simp add: split_nl_nonempty)
  next
    case False
    obtain l ls where sp: "split_nl a = l # ls"
      using split_nl_nonempty [of a] by (cases "split_nl a") auto
    show ?thesis
    proof (cases ls)
      case Nil
      with False sp Cons show ?thesis by simp
    next
      case (Cons l2 ls2)
      with False sp Cons.IH show ?thesis by simp
    qed
  qed
qed

lemma last_split_nl_no_nl: "newline \<notin> set (last (split_nl s))"
proof (induction s)
  case Nil
  then show ?case by simp
next
  case (Cons c s)
  obtain l ls where sp: "split_nl s = l # ls"
    using split_nl_nonempty [of s] by (cases "split_nl s") auto
  with Cons show ?case by (cases ls) auto
qed

lemma pop_split_nl: "pop (split_nl s) = (Some (last (split_nl s)), butlast (split_nl s))"
  by (simp add: pop_def split_nl_nonempty)

lemma or_empty_Some: "or_empty (Some s) = s"
  by (simp add: or_empty_def)

text \<open>The line loop over two lists of lines is the loop over the first, then over the second.\<close>

lemma for_lines_append:
  "for_lines env after (xs @ ys) t =
     (case for_lines env after xs t of
        (Some out, t1) \<Rightarrow> (Some out, t1)
      | (None, t1) \<Rightarrow> for_lines env after ys t1)"
  by (induction xs arbitrary: t) (auto simp: Let_def split: option.splits sum.splits prod.splits choice.splits)

lemma for_lines_reads:
  "for_lines env after ls (t\<lparr>reads := n\<rparr>) =
     (fst (for_lines env after ls t), (snd (for_lines env after ls t))\<lparr>reads := n\<rparr>)"
proof (induction ls arbitrary: t)
  case Nil
  then show ?case by simp
next
  case (Cons l ls)
  show ?case
  proof (cases "startsWith l ''data: ''")
    case False
    with Cons show ?thesis by simp
  next
    case pre: True
    show ?thesis
    proof (cases "json_parse env (slice_from l 6)")
      case None
      with pre show ?thesis by (simp add: Let_def)
    next
      case (Some data)
      let ?t2 = "t\<lparr>parsed := parsed t @ [slice_from l 6], events := events t @ [data]\<rparr>"
      have eq: "t\<lparr>reads := n, parsed := parsed t @ [slice_from l 6], events := events t @ [data]\<rparr>
                  = ?t2\<lparr>reads := n\<rparr>" by simp
      show ?thesis
        using pre Some Cons.IH [of ?t2]
        by (simp add: Let_def eq split: sum.splits choice.splits)
    qed
  qed
qed

lemma whole_text_reads:
  "forget_reads (whole_text env after txt fin (t\<lparr>reads := n\<rparr>)) = forget_reads (whole_text env after txt fin t)"
  by (simp add: whole_text_def forget_reads_def for_lines_reads split: prod.splits option.splits)

lemma butlast_split_nl_append:
  "butlast (split_nl (a @ b)) = butlast (split_nl a) @ butlast (split_nl (last (split_nl a) @ b))"
  by (subst split_nl_append) (simp add: butlast_append split_nl_nonempty)

lemma whole_text_append:
  "whole_text env after (a @ b) fin t =
     (case for_lines env after (butlast (split_nl a)) t of
        (Some out, t1) \<Rightarrow> (out, t1)
      | (None, t1) \<Rightarrow> whole_text env after (last (split_nl a) @ b) fin t1)"
  unfolding whole_text_def butlast_split_nl_append [of a b] for_lines_append
  by (simp split: prod.splits option.splits)

text \<open>
  The read loop sees the same lines, in the same order, as one pass over the whole decoded
  text: only the number of reads depends on where the chunks end.
\<close>

lemma read_loop_whole_text:
  "newline \<notin> set buffer \<Longrightarrow>
   forget_reads (read_loop env after buffer d cs fin t) =
   forget_reads (whole_text env after (buffer @ decode_all env d cs) fin t)"
proof (induction cs arbitrary: buffer d t)
  case Nil
  then show ?case
    by (simp add: whole_text_def forget_reads_def split_nl_no_nl end_outcome_def split: stream_end.splits)
next
  case (Cons c cs)
  obtain decoded d1 where dec: "decode env d c = (decoded, d1)" by (cases "decode env d c")
  let ?b1 = "buffer @ decoded"
  let ?lines = "butlast (split_nl ?b1)"
  let ?b2 = "last (split_nl ?b1)"
  obtain r t2 where fl: "for_lines env after ?lines t = (r, t2)" by (cases "for_lines env after ?lines t")
  have fl1: "for_lines env after ?lines (t\<lparr>reads := reads t + 1\<rparr>) = (r, t2\<lparr>reads := reads t + 1\<rparr>)"
    using fl by (simp add: for_lines_reads)
  have wt: "whole_text env after (buffer @ decode_all env d (c # cs)) fin t =
              (case r of Some out \<Rightarrow> (out, t2) | None \<Rightarrow> whole_text env after (?b2 @ decode_all env d1 cs) fin t2)"
    using whole_text_append [of env after ?b1 "decode_all env d1 cs" fin t] fl dec
    by (simp split: option.splits)
  show ?case
  proof (cases r)
    case (Some out)
    then show ?thesis using dec fl1 wt
      by (simp add: pop_split_nl or_empty_Some forget_reads_def)
  next
    case None
    have nb: "newline \<notin> set ?b2" by (rule last_split_nl_no_nl)
    have "forget_reads (read_loop env after buffer d (c # cs) fin t) =
          forget_reads (read_loop env after ?b2 d1 cs fin (t2\<lparr>reads := reads t + 1\<rparr>))"
      using dec fl1 None by (simp add: pop_split_nl or_empty_Some)
    also have "\<dots> = forget_reads (whole_text env after (?b2 @ decode_all env d1 cs) fin (t2\<lparr>reads := reads t + 1\<rparr>))"
      by (rule Cons.IH [OF nb])
    also have "\<dots> = forget_reads (whole_text env after (?b2 @ decode_all env d1 cs) fin t2)"
      by (rule whole_text_reads)
    finally show ?thesis using wt None by simp
  qed
qed

lemma for_lines_released: "released (snd (for_lines env after ls t)) = released t"
  by (induction ls arbitrary: t) (auto simp: Let_def split: option.splits sum.splits choice.splits)

lemma whole_text_released: "released (snd (whole_text env after txt fin t)) = released t"
  using for_lines_released [of env after "butlast (split_nl txt)" t]
  by (cases "for_lines env after (butlast (split_nl txt)) t") (auto simp: whole_text_def split: option.splits)

lemma queryStream_whole_text:
  assumes "ok r" and "body r = Some tr"
  shows "forget_reads (queryStream env after r) =
         (fst (whole_text env after (stream_text env tr) (ending tr) trace0),
          (snd (whole_text env after (stream_text env tr) (ending tr) trace0))
            \<lparr>reads := 0,
             released := (if fst (whole_text env after (stream_text env tr) (ending tr) trace0) = Suspended
                          then 0 else 1)\<rparr>)"
proof -
  let ?w = "whole_text env after (stream_text env tr) (ending tr) trace0"
  let ?rl = "read_loop env after [] (decoder_init env) (chunks tr) (ending tr) trace0"
  have eq: "forget_reads ?rl = forget_reads ?w"
    using read_loop_whole_text [of "[]" env after "decoder_init env" "chunks tr" "ending tr" trace0]
    by (simp add: stream_text_def)
  have rel: "released (snd ?w) = 0"
    by (simp add: whole_text_released trace0_def)
  have q: "queryStream env after r =
             (fst ?rl, if fst ?rl = Suspended then snd ?rl
                       else (snd ?rl)\<lparr>released := released (snd ?rl) + 1\<rparr>)"
    using assms by (simp add: queryStream_def split: prod.splits)
  from eq have f: "fst ?rl = fst ?w" and s: "(snd ?rl)\<lparr>reads := 0\<rparr> = (snd ?w)\<lparr>reads := 0\<rparr>"
    by (simp_all add: forget_reads_def)
  from s have "released ((snd ?rl)\<lparr>reads := 0\<rparr>) = released ((snd ?w)\<lparr>reads := 0\<rparr>)" by simp
  then have rl: "released (snd ?rl) = 0" using rel by simp
  have one: "(snd ?rl)\<lparr>released := released (snd ?rl) + 1, reads := 0\<rparr> = (snd ?w)\<lparr>reads := 0, released := 1\<rparr>"
  proof -
    have "(snd ?rl)\<lparr>released := released (snd ?rl) + 1, reads := 0\<rparr> = (snd ?rl)\<lparr>reads := 0\<rparr>\<lparr>released := 1\<rparr>"
      using rl by simp
    also have "\<dots> = (snd ?w)\<lparr>reads := 0\<rparr>\<lparr>released := 1\<rparr>" using s by simp
    finally show ?thesis by simp
  qed
  have zero: "(snd ?rl)\<lparr>reads := 0\<rparr> = (snd ?w)\<lparr>reads := 0, released := 0\<rparr>"
  proof -
    have "(snd ?w)\<lparr>reads := 0, released := 0\<rparr> = (snd ?w)\<lparr>reads := 0\<rparr>"
      using rel by simp
    then show ?thesis using s by simp
  qed
  show ?thesis using q f one zero by (simp add: forget_reads_def)
qed

lemma decode_all_concat:
  assumes "stream_decoder env"
  shows "decode_all env d cs = fst (decode env d (concat cs))"
proof (induction cs arbitrary: d)
  case Nil
  then show ?case using assms by (simp add: stream_decoder_def)
next
  case (Cons c cs)
  have "decode env d (c @ concat cs) =
        (let (t1, d1) = decode env d c; (t2, d2) = decode env d1 (concat cs) in (t1 @ t2, d2))"
    using assms unfolding stream_decoder_def by blast
  then show ?case using Cons.IH by (simp add: Let_def split: prod.splits)
qed

lemma get_prop_error: "get_prop v k = Inl e \<Longrightarrow> e = TypeError \<and> v = JNull"
  by (cases v) auto

text \<open>
  What a consumer that pulls everything receives from the line loop, when no frame parses
  to \<open>null\<close>.
\<close>

lemma for_lines_pull_all_events:
  "Some JNull \<notin> set (map (classify env) (filter (\<lambda>l. startsWith l ''data: '') ls)) \<Longrightarrow>
   events (snd (for_lines env pull_all ls t)) =
     events t @ delivered (map (classify env) (filter (\<lambda>l. startsWith l ''data: '') ls))"
proof (induction ls arbitrary: t)
  case Nil
  then show ?case by simp
next
  case (Cons l ls)
  show ?case
  proof (cases "startsWith l ''data: ''")
    case False
    then show ?thesis using Cons by simp
  next
    case pre: True
    show ?thesis
    proof (cases "json_parse env (slice_from l 6)")
      case None
      then show ?thesis using pre by (simp add: Let_def classify_def)
    next
      case (Some data)
      then have nn: "data \<noteq> JNull" using Cons.prems pre by (auto simp: classify_def)
      then obtain ty where ty: "get_prop data ''type'' = Inr ty"
        by (cases "get_prop data ''type''") (auto dest: get_prop_error)
      have rest: "Some JNull \<notin> set (map (classify env) (filter (\<lambda>l. startsWith l ''data: '') ls))"
        using Cons.prems by auto
      show ?thesis using pre Some ty Cons.IH [OF rest]
        by (simp add: Let_def classify_def pull_all_def terminal_event_def)
    qed
  qed
qed

lemma whole_text_events:
  "Some JNull \<notin> set (map (classify env) (frames txt)) \<Longrightarrow>
   events (snd (whole_text env pull_all txt fin t)) = events t @ delivered (map (classify env) (frames txt))"
  using for_lines_pull_all_events [of env "butlast (split_nl txt)" t]
  by (cases "for_lines env pull_all (butlast (split_nl txt)) t")
     (auto simp: whole_text_def frames_def split: option.splits)

section \<open>Chunking and order\<close>

text \<open>
  When every frame has a classification and none but the last is terminal, all the
  classifications are delivered.
\<close>

lemma delivered_complete:
  "\<forall>c\<in>set cs. c \<noteq> None \<Longrightarrow> \<forall>c\<in>set (butlast cs). \<forall>e. c = Some e \<longrightarrow> \<not> terminal_event e \<Longrightarrow>
   map Some (delivered cs) = cs"
proof (induction cs)
  case Nil
  then show ?case by simp
next
  case (Cons c cs)
  from Cons.prems(1) obtain e where c: "c = Some e" by auto
  show ?case
  proof (cases cs)
    case Nil
    then show ?thesis using c by simp
  next
    case (Cons c2 cs2)
    then have ne: "\<not> terminal_event e"
      and rest: "\<forall>x\<in>set (butlast cs). \<forall>e. x = Some e \<longrightarrow> \<not> terminal_event e"
      using Cons.prems(2) c by auto
    have "map Some (delivered cs) = cs"
      using Cons.IH Cons.prems(1) rest by simp
    then show ?thesis using c ne by simp
  qed
qed

text \<open>
  C1, as amended. Take a byte stream none of whose frames parses to \<open>null\<close>; what
  happens at such a frame is left open. For every way of splitting the stream into
  chunks, a consumer that pulls everything receives the classifications of the frames in
  order, without reordering or duplication, up to and including the first terminal event
  and not beyond the first frame whose payload has no classification. So it receives
  the classifications of all the frames when every frame has one and no frame but the
  last is terminal. For every byte stream and whatever the consumer, two responses
  carrying the same bytes and ending the same way give the same outcome, events, parsed
  payloads and release, wherever the chunk boundaries fall.
\<close>

theorem queryStream_chunking_order:
  assumes "stream_decoder env" and "ok r" and "body r = Some tr"
  shows "(Some JNull \<notin> set (map (classify env)
                 (frames (fst (decode env (decoder_init env) (concat (chunks tr))))))
          \<longrightarrow> events (snd (queryStream env pull_all r)) =
                delivered (map (classify env)
                  (frames (fst (decode env (decoder_init env) (concat (chunks tr)))))))
       \<and> (Some JNull \<notin> set (map (classify env)
                 (frames (fst (decode env (decoder_init env) (concat (chunks tr))))))
            \<and> (\<forall>c\<in>set (map (classify env)
                 (frames (fst (decode env (decoder_init env) (concat (chunks tr)))))). c \<noteq> None)
            \<and> (\<forall>c\<in>set (butlast (map (classify env)
                 (frames (fst (decode env (decoder_init env) (concat (chunks tr))))))).
                  \<forall>e. c = Some e \<longrightarrow> \<not> terminal_event e)
          \<longrightarrow> map Some (events (snd (queryStream env pull_all r))) =
                map (classify env) (frames (fst (decode env (decoder_init env) (concat (chunks tr))))))
       \<and> (\<forall>after r' tr'. ok r' \<and> body r' = Some tr' \<and> concat (chunks tr') = concat (chunks tr)
              \<and> ending tr' = ending tr
            \<longrightarrow> forget_reads (queryStream env after r') = forget_reads (queryStream env after r))"
proof -
  have stxt: "\<And>x. stream_text env x = fst (decode env (decoder_init env) (concat (chunks x)))"
    using assms(1) by (simp add: stream_text_def decode_all_concat)
  let ?cls = "map (classify env) (frames (stream_text env tr))"
  have a: "events (snd (queryStream env pull_all r)) = delivered ?cls" if nn: "Some JNull \<notin> set ?cls"
  proof -
    have "events (snd (forget_reads (queryStream env pull_all r))) = delivered ?cls"
      unfolding queryStream_whole_text [OF assms(2,3)]
      using whole_text_events [OF nn, of "ending tr" trace0] by (simp add: trace0_def)
    then show ?thesis by (simp add: forget_reads_def)
  qed
  have b: "forget_reads (queryStream env after r') = forget_reads (queryStream env after r)"
    if "ok r'" "body r' = Some tr'" "concat (chunks tr') = concat (chunks tr)" "ending tr' = ending tr"
    for after r' tr'
  proof -
    have "stream_text env tr' = stream_text env tr" using that(3) by (simp add: stxt)
    then show ?thesis
      unfolding queryStream_whole_text [OF that(1,2)] queryStream_whole_text [OF assms(2,3)]
      using that(4) by simp
  qed
  have c: "map Some (events (snd (queryStream env pull_all r))) = ?cls"
    if "Some JNull \<notin> set ?cls" "\<forall>c\<in>set ?cls. c \<noteq> None"
       "\<forall>c\<in>set (butlast ?cls). \<forall>e. c = Some e \<longrightarrow> \<not> terminal_event e"
    unfolding a [OF that(1)] by (rule delivered_complete [OF that(2,3)])
  from a b c show ?thesis unfolding stxt by blast
qed

text \<open>
  C1, as stated, fails: of the two frames \<open>done\<close>, \<open>answer\<close> in one chunk only the
  first is yielded, so the events are not the classifications of all the frames.
\<close>

theorem queryStream_frame_after_terminal_lost:
  "map Some (events (snd (queryStream sample_platform pull_all
       (stream_response [frame_line done_payload @ frame_line answer_payload]))))
   \<noteq> map (classify sample_platform)
       (frames (fst (decode sample_platform (decoder_init sample_platform)
          (concat [frame_line done_payload @ frame_line answer_payload]))))"
  by (simp add: sample_defs queryStream_def trace0_def pop_def or_empty_def startsWith_def slice_from_def
      is_terminal_def pull_all_def frames_def classify_def)

text \<open>
  C1, an instance: an \<open>answer\<close> frame cut after ten bytes, its end in one chunk with a
  \<open>done\<close> frame. The two events arrive in order, they are the classifications of the two
  frames, and the run is the run on the same bytes in a single chunk.
\<close>

theorem queryStream_chunking_order_witness:
  "stream_decoder sample_platform
   \<and> events (snd (queryStream sample_platform pull_all
       (stream_response [take 10 (frame_line answer_payload),
                         drop 10 (frame_line answer_payload) @ frame_line done_payload])))
     = [answer_event, done_event]
   \<and> map Some (events (snd (queryStream sample_platform pull_all
       (stream_response [take 10 (frame_line answer_payload),
                         drop 10 (frame_line answer_payload) @ frame_line done_payload]))))
     = map (classify sample_platform)
         (frames (frame_line answer_payload @ frame_line done_payload))
   \<and> forget_reads (queryStream sample_platform pull_all
       (stream_response [frame_line answer_payload @ frame_line done_payload]))
     = forget_reads (queryStream sample_platform pull_all
       (stream_response [take 10 (frame_line answer_payload),
                         drop 10 (frame_line answer_payload) @ frame_line done_payload]))"
proof -
  let ?cs = "[take 10 (frame_line answer_payload), drop 10 (frame_line answer_payload) @ frame_line done_payload]"
  let ?one = "[frame_line answer_payload @ frame_line done_payload]"
  have b: "ok (stream_response ?cs)"
    and c: "body (stream_response ?cs) = Some \<lparr>chunks = ?cs, ending = EndOfStream\<rparr>"
    by (simp_all add: stream_response_def)
  note th = queryStream_chunking_order [OF sample_stream_decoder b c]
  have tx: "fst (decode sample_platform (decoder_init sample_platform)
                  (concat (chunks \<lparr>chunks = ?cs, ending = EndOfStream\<rparr>)))
            = frame_line answer_payload @ frame_line done_payload"
    by (simp add: sample_platform_def)
  have cls: "map (classify sample_platform) (frames (frame_line answer_payload @ frame_line done_payload))
             = [Some answer_event, Some done_event]"
    by (simp add: sample_defs frames_def classify_def startsWith_def slice_from_def)
  have nn: "Some JNull \<notin> set [Some answer_event, Some done_event]"
    by (simp add: answer_event_def done_event_def)
  have ne: "\<not> terminal_event answer_event"
    by (simp add: terminal_event_def answer_event_def is_terminal_def)
  have te: "terminal_event done_event"
    by (simp add: terminal_event_def done_event_def is_terminal_def)
  have ev: "events (snd (queryStream sample_platform pull_all (stream_response ?cs)))
              = [answer_event, done_event]"
    using th nn ne te unfolding tx cls by simp
  have all: "map Some (events (snd (queryStream sample_platform pull_all (stream_response ?cs))))
              = map (classify sample_platform) (frames (frame_line answer_payload @ frame_line done_payload))"
    using th nn ne unfolding tx cls by simp
  have b1: "ok (stream_response ?one)"
    and c1: "body (stream_response ?one) = Some \<lparr>chunks = ?one, ending = EndOfStream\<rparr>"
    by (simp_all add: stream_response_def)
  have same: "concat (chunks \<lparr>chunks = ?one, ending = EndOfStream\<rparr>) =
              concat (chunks \<lparr>chunks = ?cs, ending = EndOfStream\<rparr>)"
    by simp
  have inv: "forget_reads (queryStream sample_platform pull_all (stream_response ?one)) =
             forget_reads (queryStream sample_platform pull_all (stream_response ?cs))"
    using th b1 c1 same by (metis transport.select_convs(2))
  show ?thesis using sample_stream_decoder ev all inv by simp
qed


section \<open>Invariants of a run\<close>

lemma for_lines_outcome:
  "for_lines env after ls t = (Some out, t1) \<Longrightarrow> out \<noteq> Finished \<and> out \<noteq> Threw TransportError"
  by (induction ls arbitrary: t)
     (auto simp: Let_def split: option.splits sum.splits choice.splits if_splits dest: get_prop_error)

text \<open>
  While no terminal event has been yielded the line loop goes on; it yields a terminal
  event only as the last event before the generator is left.
\<close>

lemma for_lines_terminal:
  "\<forall>e\<in>set (events t). \<not> terminal_event e \<Longrightarrow> for_lines env after ls t = (r, t1) \<Longrightarrow>
   (if \<exists>out. r = Some out \<and> left_at_yield out
    then \<exists>es e. events t1 = es @ [e] \<and> (\<forall>x\<in>set es. \<not> terminal_event x)
    else \<forall>x\<in>set (events t1). \<not> terminal_event x)"
proof (induction ls arbitrary: t)
  case Nil
  then show ?case by simp
next
  case (Cons l ls)
  show ?case
  proof (cases "startsWith l ''data: ''")
    case False
    then have "for_lines env after ls t = (r, t1)" using Cons.prems(2) by simp
    from Cons.IH [OF Cons.prems(1) this] show ?thesis .
  next
    case pre: True
    show ?thesis
    proof (cases "json_parse env (slice_from l 6)")
      case None
      then have "r = Some (Threw SyntaxError)" and "events t1 = events t"
        using pre Cons.prems(2) by (auto simp: Let_def)
      then show ?thesis using Cons.prems(1) by (simp add: left_at_yield_def)
    next
      case (Some data)
      let ?t2 = "t\<lparr>parsed := parsed t @ [slice_from l 6], events := events t @ [data]\<rparr>"
      show ?thesis
      proof (cases "after (events t @ [data])")
        case Return
        then have "r = Some Abandoned" and "events t1 = events t @ [data]"
          using pre Some Cons.prems(2) by (auto simp: Let_def)
        then show ?thesis using Cons.prems(1) by (simp add: left_at_yield_def)
      next
        case Stall
        then have "r = Some Suspended" and "events t1 = events t @ [data]"
          using pre Some Cons.prems(2) by (auto simp: Let_def)
        then show ?thesis using Cons.prems(1) by (simp add: left_at_yield_def)
      next
        case Next
        show ?thesis
        proof (cases "get_prop data ''type''")
          case (Inl e)
          then have nt: "\<not> terminal_event data" by (simp add: terminal_event_def)
          have "r = Some (Threw e)" and "events t1 = events t @ [data]"
            using pre Some Next Inl Cons.prems(2) by (auto simp: Let_def)
          then show ?thesis using Cons.prems(1) nt by (simp add: left_at_yield_def)
        next
          case (Inr ty)
          show ?thesis
          proof (cases "is_terminal ty")
            case True
            then have "r = Some Returned" and "events t1 = events t @ [data]"
              using pre Some Next Inr Cons.prems(2) by (auto simp: Let_def)
            then show ?thesis using Cons.prems(1) by (simp add: left_at_yield_def)
          next
            case False
            then have nt: "\<not> terminal_event data" using Inr by (simp add: terminal_event_def)
            have c: "\<forall>e\<in>set (events ?t2). \<not> terminal_event e" using Cons.prems(1) nt by simp
            have f: "for_lines env after ls ?t2 = (r, t1)"
              using pre Some Next Inr False Cons.prems(2) by (simp add: Let_def)
            from Cons.IH [OF c f] show ?thesis .
          qed
        qed
      qed
    qed
  qed
qed

text \<open>
  Every yielded event is the value \<open>JSON.parse\<close> gave for one parsed payload, in order;
  only a payload that failed to parse, the last one, has no event.
\<close>

lemma for_lines_parsed:
  "map (json_parse env) (parsed t) = map Some (events t) \<Longrightarrow> for_lines env after ls t = (r, t1) \<Longrightarrow>
   map (json_parse env) (parsed t1) =
     map Some (events t1) @ (if r = Some (Threw SyntaxError) then [None] else [])"
proof (induction ls arbitrary: t)
  case Nil
  then show ?case by auto
next
  case (Cons l ls)
  show ?case
  proof (cases "startsWith l ''data: ''")
    case False
    with Cons show ?thesis by simp
  next
    case pre: True
    show ?thesis
    proof (cases "json_parse env (slice_from l 6)")
      case None
      with pre Cons.prems show ?thesis by (auto simp: Let_def)
    next
      case (Some data)
      let ?t2 = "t\<lparr>parsed := parsed t @ [slice_from l 6], events := events t @ [data]\<rparr>"
      have c: "map (json_parse env) (parsed ?t2) = map Some (events ?t2)"
        using Cons.prems(1) Some by simp
      show ?thesis
      proof (cases "after (events t @ [data])")
        case Return
        with pre Some Cons.prems show ?thesis by (auto simp: Let_def)
      next
        case Stall
        with pre Some Cons.prems show ?thesis by (auto simp: Let_def)
      next
        case Next
        show ?thesis
        proof (cases "get_prop data ''type''")
          case (Inl e)
          then have "e = TypeError" by (auto dest: get_prop_error)
          with pre Some Next Inl Cons.prems show ?thesis by (auto simp: Let_def)
        next
          case (Inr ty)
          show ?thesis
          proof (cases "is_terminal ty")
            case True
            with pre Some Next Inr Cons.prems show ?thesis by (auto simp: Let_def)
          next
            case False
            have f: "for_lines env after ls ?t2 = (r, t1)"
              using pre Some Next Inr False Cons.prems(2) by (simp add: Let_def)
            from Cons.IH [OF c f] show ?thesis .
          qed
        qed
      qed
    qed
  qed
qed

lemma for_lines_reads_same: "reads (snd (for_lines env after ls t)) = reads t"
  by (induction ls arbitrary: t) (auto simp: Let_def split: option.splits sum.splits choice.splits)

text \<open>
  A run that is left from inside the line loop does not depend on the chunks that would
  have followed, and has read no more chunks than it was given.
\<close>

lemma read_loop_extend:
  "fst (read_loop env after b d cs fin t) \<noteq> Finished \<Longrightarrow>
   fst (read_loop env after b d cs fin t) \<noteq> Threw TransportError \<Longrightarrow>
   read_loop env after b d (cs @ extra) fin' t = read_loop env after b d cs fin t \<and>
   reads (snd (read_loop env after b d cs fin t)) \<le> reads t + length cs"
proof (induction cs arbitrary: b d t)
  case Nil
  then show ?case by (simp add: Let_def split: stream_end.splits)
next
  case (Cons c cs)
  obtain decoded d1 where dec: "decode env d c = (decoded, d1)" by (cases "decode env d c")
  let ?lines = "butlast (split_nl (b @ decoded))"
  let ?b2 = "last (split_nl (b @ decoded))"
  let ?t1 = "t\<lparr>reads := reads t + 1\<rparr>"
  obtain r t2 where fl: "for_lines env after ?lines ?t1 = (r, t2)" by (cases "for_lines env after ?lines ?t1")
  have rd: "reads t2 = reads t + 1" using for_lines_reads_same [of env after ?lines ?t1] fl by simp
  have step: "\<And>xs f. read_loop env after b d (c # xs) f t =
                (case r of Some out \<Rightarrow> (out, t2) | None \<Rightarrow> read_loop env after ?b2 d1 xs f t2)"
    using dec fl by (simp add: pop_split_nl or_empty_Some split: option.splits)
  show ?case
  proof (cases r)
    case (Some out)
    then show ?thesis using step [of cs fin] step [of "cs @ extra" fin'] rd by simp
  next
    case None
    have a: "fst (read_loop env after ?b2 d1 cs fin t2) \<noteq> Finished"
      and b: "fst (read_loop env after ?b2 d1 cs fin t2) \<noteq> Threw TransportError"
      using Cons.prems step [of cs fin] None by simp_all
    from Cons.IH [OF a b] show ?thesis
      using step [of cs fin] step [of "cs @ extra" fin'] None rd by simp
  qed
qed

lemma read_loop_lines:
  assumes "newline \<notin> set b"
  obtains r t1 where
    "for_lines env after (butlast (split_nl (b @ decode_all env d cs))) t = (r, t1)"
    "fst (read_loop env after b d cs fin t) = (case r of Some out \<Rightarrow> out | None \<Rightarrow> end_outcome fin)"
    "events (snd (read_loop env after b d cs fin t)) = events t1"
    "parsed (snd (read_loop env after b d cs fin t)) = parsed t1"
proof -
  let ?ls = "butlast (split_nl (b @ decode_all env d cs))"
  obtain r t1 where fl: "for_lines env after ?ls t = (r, t1)" by (cases "for_lines env after ?ls t")
  have w: "whole_text env after (b @ decode_all env d cs) fin t =
             (case r of Some out \<Rightarrow> out | None \<Rightarrow> end_outcome fin, t1)"
    using fl by (simp add: whole_text_def split: option.splits)
  have eq: "forget_reads (read_loop env after b d cs fin t) =
            forget_reads (whole_text env after (b @ decode_all env d cs) fin t)"
    by (rule read_loop_whole_text [OF assms])
  then have f: "fst (read_loop env after b d cs fin t) = (case r of Some out \<Rightarrow> out | None \<Rightarrow> end_outcome fin)"
    and s: "(snd (read_loop env after b d cs fin t))\<lparr>reads := 0\<rparr> = t1\<lparr>reads := 0\<rparr>"
    using w by (simp_all add: forget_reads_def)
  from s have "events ((snd (read_loop env after b d cs fin t))\<lparr>reads := 0\<rparr>) = events (t1\<lparr>reads := 0\<rparr>)"
    and "parsed ((snd (read_loop env after b d cs fin t))\<lparr>reads := 0\<rparr>) = parsed (t1\<lparr>reads := 0\<rparr>)"
    by simp_all
  then have "events (snd (read_loop env after b d cs fin t)) = events t1"
    and "parsed (snd (read_loop env after b d cs fin t)) = parsed t1" by simp_all
  with fl f show ?thesis using that by blast
qed

lemma queryStream_ok_unfold:
  assumes "ok r" and "body r = Some tr"
  shows "queryStream env after r =
          (fst (read_loop env after [] (decoder_init env) (chunks tr) (ending tr) trace0),
           if fst (read_loop env after [] (decoder_init env) (chunks tr) (ending tr) trace0) = Suspended
           then snd (read_loop env after [] (decoder_init env) (chunks tr) (ending tr) trace0)
           else (snd (read_loop env after [] (decoder_init env) (chunks tr) (ending tr) trace0))
                  \<lparr>released := released (snd (read_loop env after [] (decoder_init env) (chunks tr) (ending tr) trace0)) + 1\<rparr>)"
  using assms by (simp add: queryStream_def split: prod.splits)

lemma queryStream_not_started:
  assumes "\<not> (ok r \<and> body r \<noteq> None)"
  shows "snd (queryStream env after r) = trace0"
  using assms by (auto simp: queryStream_def Let_def split: sum.splits option.splits)

lemma one_terminal_last:
  assumes "es = xs @ [e]" and "\<forall>x\<in>set xs. \<not> terminal_event x"
  shows "length (filter terminal_event es) \<le> 1"
    and "\<forall>i<length es. terminal_event (es ! i) \<longrightarrow> Suc i = length es"
proof -
  have "filter terminal_event xs = []" using assms(2) by (simp add: filter_empty_conv)
  then show "length (filter terminal_event es) \<le> 1" using assms(1) by simp
  show "\<forall>i<length es. terminal_event (es ! i) \<longrightarrow> Suc i = length es"
  proof (intro allI impI)
    fix i assume i: "i < length es" and ti: "terminal_event (es ! i)"
    show "Suc i = length es"
    proof (rule ccontr)
      assume "Suc i \<noteq> length es"
      then have lt: "i < length xs" using i assms(1) by simp
      then have "es ! i = xs ! i" using assms(1) by (simp add: nth_append)
      moreover have "xs ! i \<in> set xs" using lt by simp
      ultimately show False using ti assms(2) by auto
    qed
  qed
qed

lemma no_terminal:
  assumes "\<forall>x\<in>set es. \<not> terminal_event x"
  shows "length (filter terminal_event es) \<le> 1"
    and "\<forall>i<length es. terminal_event (es ! i) \<longrightarrow> Suc i = length es"
proof -
  have "filter terminal_event es = []" using assms by (simp add: filter_empty_conv)
  then show "length (filter terminal_event es) \<le> 1" by simp
  show "\<forall>i<length es. terminal_event (es ! i) \<longrightarrow> Suc i = length es"
    using assms by auto
qed

section \<open>Terminal short-circuit\<close>

text \<open>
  C2. Every run yields at most one terminal event (type \<open>done\<close> or \<open>error\<close>), and a
  terminal event is the last event yielded. Once one has been yielded the generator is
  left (it returned, or the consumer closed it or left it suspended); every payload that
  was parsed gave one of the events, so no frame after the terminal one was parsed, be it
  in the buffer, later in the same chunk or in a later chunk; and the run is the same,
  with the same number of reads, whatever chunks would have followed and however the
  transport would have ended: nothing more is read.
\<close>

theorem queryStream_terminal_short_circuit:
  assumes run: "queryStream env after r = (out, t)"
  shows "length (filter terminal_event (events t)) \<le> 1
       \<and> (\<forall>i<length (events t). terminal_event (events t ! i) \<longrightarrow> Suc i = length (events t))
       \<and> ((\<exists>e\<in>set (events t). terminal_event e) \<longrightarrow>
            (out = Returned \<or> out = Abandoned \<or> out = Suspended)
          \<and> map (json_parse env) (parsed t) = map Some (events t)
          \<and> (\<exists>tr. body r = Some tr \<and> reads t \<le> length (chunks tr)
                \<and> (\<forall>extra fin. queryStream env after
                       (r\<lparr>body := Some \<lparr>chunks = chunks tr @ extra, ending = fin\<rparr>\<rparr>) = (out, t))))"
proof (cases "ok r \<and> body r \<noteq> None")
  case False
  then have "events t = []"
    using queryStream_not_started [of r env after] run by (simp add: trace0_def)
  then show ?thesis by simp
next
  case True
  then obtain tr where okr: "ok r" and tr: "body r = Some tr" by auto
  let ?rl = "read_loop env after [] (decoder_init env) (chunks tr) (ending tr) trace0"
  have q: "queryStream env after r =
             (fst ?rl, if fst ?rl = Suspended then snd ?rl
                       else (snd ?rl)\<lparr>released := released (snd ?rl) + 1\<rparr>)"
    by (rule queryStream_ok_unfold [OF okr tr])
  from q run have out: "out = fst ?rl" and ev: "events t = events (snd ?rl)"
    and pa: "parsed t = parsed (snd ?rl)" and rd: "reads t = reads (snd ?rl)"
    by (auto split: if_splits)
  obtain res t1 where
    fl: "for_lines env after (butlast (split_nl ([] @ decode_all env (decoder_init env) (chunks tr)))) trace0 = (res, t1)"
    and f: "fst ?rl = (case res of Some out \<Rightarrow> out | None \<Rightarrow> end_outcome (ending tr))"
    and e1: "events (snd ?rl) = events t1" and p1: "parsed (snd ?rl) = parsed t1"
    using read_loop_lines [of "[]" env after "decoder_init env" "chunks tr" trace0 "ending tr"] by auto
  have clean0: "\<forall>e\<in>set (events trace0). \<not> terminal_event e" by (simp add: trace0_def)
  have par0: "map (json_parse env) (parsed trace0) = map Some (events trace0)" by (simp add: trace0_def)
  note tm = for_lines_terminal [OF clean0 fl]
  note par = for_lines_parsed [OF par0 fl]
  show ?thesis
  proof (cases "\<exists>o'. res = Some o' \<and> left_at_yield o'")
    case False
    then have clean: "\<forall>x\<in>set (events t). \<not> terminal_event x" using tm ev e1 by simp
    then show ?thesis using no_terminal [OF clean] by blast
  next
    case left: True
    then obtain o' where res: "res = Some o'" and lo: "left_at_yield o'" by auto
    from tm left obtain es e where es: "events t1 = es @ [e]" and cl: "\<forall>x\<in>set es. \<not> terminal_event x"
      by auto
    have evt: "events t = es @ [e]" using ev e1 es by simp
    have oo: "out = o'" using out f res by simp
    have a: "out = Returned \<or> out = Abandoned \<or> out = Suspended" using oo lo by (simp add: left_at_yield_def)
    have b: "map (json_parse env) (parsed t) = map Some (events t)"
      using par res lo pa p1 ev e1 by (auto simp: left_at_yield_def)
    have nf: "fst ?rl \<noteq> Finished" and nt: "fst ?rl \<noteq> Threw TransportError"
      using a out by auto
    have ext: "queryStream env after (r\<lparr>body := Some \<lparr>chunks = chunks tr @ extra, ending = fin\<rparr>\<rparr>) = (out, t)"
      for extra fin
    proof -
      let ?r' = "r\<lparr>body := Some \<lparr>chunks = chunks tr @ extra, ending = fin\<rparr>\<rparr>"
      have "read_loop env after [] (decoder_init env) (chunks tr @ extra) fin trace0 = ?rl"
        using read_loop_extend [OF nf nt] by simp
      then have "queryStream env after ?r' = queryStream env after r"
        using queryStream_ok_unfold [of ?r' "\<lparr>chunks = chunks tr @ extra, ending = fin\<rparr>" env after] okr q
        by simp
      then show ?thesis using run by simp
    qed
    have rb: "reads t \<le> length (chunks tr)"
      using read_loop_extend [OF nf nt, of "[]" fin] rd by (simp add: trace0_def)
    show ?thesis
      using one_terminal_last [OF evt cl] a b tr rb ext by blast
  qed
qed

lemmas run_defs = queryStream_def trace0_def pop_def or_empty_def startsWith_def slice_from_def
  is_terminal_def pull_all_def

lemma short_circuit_run:
  "queryStream sample_platform pull_all (stream_response short_circuit_chunks) =
     (Returned, \<lparr>events = [answer_event, done_event], parsed = [answer_payload, done_payload],
                 reads = 1, released = 1\<rparr>)"
  by (simp add: short_circuit_chunks_def sample_defs run_defs)

text \<open>
  C2, an instance: the run stops at the \<open>done\<close> frame of the first chunk after one read,
  also when a further chunk with a second \<open>done\<close> frame is appended.
\<close>

theorem queryStream_terminal_short_circuit_witness:
  "queryStream sample_platform pull_all (stream_response short_circuit_chunks) =
     (Returned, \<lparr>events = [answer_event, done_event], parsed = [answer_payload, done_payload],
                 reads = 1, released = 1\<rparr>)
   \<and> length (filter terminal_event [answer_event, done_event]) \<le> 1
   \<and> queryStream sample_platform pull_all
        (stream_response (short_circuit_chunks @ [frame_line done_payload])) =
     (Returned, \<lparr>events = [answer_event, done_event], parsed = [answer_payload, done_payload],
                 reads = 1, released = 1\<rparr>)"
proof -
  let ?t = "\<lparr>events = [answer_event, done_event], parsed = [answer_payload, done_payload],
             reads = 1, released = 1\<rparr>"
  note th = queryStream_terminal_short_circuit [OF short_circuit_run]
  have te: "\<exists>e\<in>set (events ?t). terminal_event e"
    by (simp add: terminal_event_def done_event_def is_terminal_def)
  have b: "body (stream_response short_circuit_chunks) =
             Some \<lparr>chunks = short_circuit_chunks, ending = EndOfStream\<rparr>"
    by (simp add: stream_response_def)
  from th te b have
    "queryStream sample_platform pull_all
       ((stream_response short_circuit_chunks)
          \<lparr>body := Some \<lparr>chunks = short_circuit_chunks @ [frame_line done_payload], ending = EndOfStream\<rparr>\<rparr>)
     = (Returned, ?t)"
    by auto
  moreover have "(stream_response short_circuit_chunks)
          \<lparr>body := Some \<lparr>chunks = short_circuit_chunks @ [frame_line done_payload], ending = EndOfStream\<rparr>\<rparr>
        = stream_response (short_circuit_chunks @ [frame_line done_payload])"
    by (simp add: stream_response_def)
  moreover from th have "length (filter terminal_event (events ?t)) \<le> 1" by blast
  ultimately show ?thesis using short_circuit_run by simp
qed


section \<open>A run as one pass over the complete lines\<close>

lemma whole_text_finish:
  "whole_text env after txt fin t = finish fin (for_lines env after (butlast (split_nl txt)) t)"
  by (cases "for_lines env after (butlast (split_nl txt)) t")
     (simp add: whole_text_def finish_def split: option.splits)

lemma queryStream_close_run:
  assumes "ok r" and "body r = Some tr"
  shows "forget_reads (queryStream env after r) =
         close_run (finish (ending tr) (for_lines env after (butlast (split_nl (stream_text env tr))) trace0))"
  unfolding queryStream_whole_text [OF assms] whole_text_finish close_run_def by simp

lemma for_lines_events_prefix: "\<exists>es. events (snd (for_lines env after ls t)) = events t @ es"
proof (induction ls arbitrary: t)
  case Nil
  then show ?case by simp
next
  case (Cons l ls)
  show ?case
  proof (cases "startsWith l ''data: ''")
    case False
    then show ?thesis using Cons.IH [of t] by simp
  next
    case pre: True
    show ?thesis
    proof (cases "json_parse env (slice_from l 6)")
      case None
      with pre show ?thesis by (simp add: Let_def)
    next
      case (Some data)
      let ?t2 = "t\<lparr>parsed := parsed t @ [slice_from l 6], events := events t @ [data]\<rparr>"
      from Cons.IH [of ?t2] obtain es where
        "events (snd (for_lines env after ls ?t2)) = events t @ data # es" by auto
      then show ?thesis using pre Some
        by (auto simp: Let_def split: choice.splits sum.splits)
    qed
  qed
qed

lemma for_lines_parsed_frames:
  "set (parsed (snd (for_lines env after ls t))) \<subseteq>
     set (parsed t) \<union> (\<lambda>l. slice_from l 6) ` set (filter (\<lambda>l. startsWith l ''data: '') ls)"
proof (induction ls arbitrary: t)
  case Nil
  then show ?case by simp
next
  case (Cons l ls)
  show ?case
  proof (cases "startsWith l ''data: ''")
    case False
    then show ?thesis using Cons.IH [of t] by simp
  next
    case pre: True
    show ?thesis
    proof (cases "json_parse env (slice_from l 6)")
      case None
      with pre show ?thesis by (auto simp: Let_def)
    next
      case (Some data)
      let ?t2 = "t\<lparr>parsed := parsed t @ [slice_from l 6], events := events t @ [data]\<rparr>"
      show ?thesis using pre Some Cons.IH [of ?t2]
        by (auto simp: Let_def split: choice.splits sum.splits)
    qed
  qed
qed

section \<open>Malformed frames\<close>

text \<open>
  C3. When the consumer reaches a frame (a complete line with the prefix) whose payload is
  not well-formed JSON, the generator throws the parse error to its caller. The events
  yielded are those yielded before that frame and no other, so no \<open>error\<close> event is made
  up; the payload was parsed once, as the last one, so the frame is neither retried nor
  skipped and nothing after it is parsed or yielded; and the reader is released.
\<close>

theorem queryStream_malformed_frame_fatal:
  assumes "ok r" and "body r = Some tr"
    and lines: "butlast (split_nl (stream_text env tr)) = pre @ bad # post"
    and frame: "startsWith bad ''data: ''"
    and bad: "json_parse env (slice_from bad 6) = None"
    and reach: "for_lines env after pre trace0 = (None, t1)"
  shows "fst (queryStream env after r) = Threw SyntaxError
       \<and> events (snd (queryStream env after r)) = events t1
       \<and> parsed (snd (queryStream env after r)) = parsed t1 @ [slice_from bad 6]
       \<and> map (json_parse env) (parsed (snd (queryStream env after r))) =
           map Some (events (snd (queryStream env after r))) @ [None]
       \<and> released (snd (queryStream env after r)) = 1"
proof -
  let ?t2 = "t1\<lparr>parsed := parsed t1 @ [slice_from bad 6]\<rparr>"
  have fl: "for_lines env after (pre @ bad # post) trace0 = (Some (Threw SyntaxError), ?t2)"
    using reach frame bad by (simp add: for_lines_append Let_def)
  have "forget_reads (queryStream env after r) =
        close_run (finish (ending tr) (Some (Threw SyntaxError), ?t2))"
    using queryStream_close_run [OF assms(1,2), of env after] lines fl by simp
  then have q: "forget_reads (queryStream env after r) =
        (Threw SyntaxError, ?t2\<lparr>reads := 0, released := 1\<rparr>)"
    by (simp add: close_run_def finish_def)
  from q have o: "fst (queryStream env after r) = Threw SyntaxError"
    and s: "(snd (queryStream env after r))\<lparr>reads := 0\<rparr> = ?t2\<lparr>reads := 0, released := 1\<rparr>"
    by (simp_all add: forget_reads_def)
  from s have "events ((snd (queryStream env after r))\<lparr>reads := 0\<rparr>) = events (?t2\<lparr>reads := 0, released := 1\<rparr>)"
    and "parsed ((snd (queryStream env after r))\<lparr>reads := 0\<rparr>) = parsed (?t2\<lparr>reads := 0, released := 1\<rparr>)"
    and "released ((snd (queryStream env after r))\<lparr>reads := 0\<rparr>) = released (?t2\<lparr>reads := 0, released := 1\<rparr>)"
    by simp_all
  then have e: "events (snd (queryStream env after r)) = events t1"
    and p: "parsed (snd (queryStream env after r)) = parsed t1 @ [slice_from bad 6]"
    and rl: "released (snd (queryStream env after r)) = 1"
    by simp_all
  have "map (json_parse env) (parsed t1) = map Some (events t1) @ (if None = Some (Threw SyntaxError) then [None] else [])"
    by (rule for_lines_parsed [OF _ reach]) (simp add: trace0_def)
  then have m: "map (json_parse env) (parsed t1 @ [slice_from bad 6]) = map Some (events t1) @ [None]"
    using bad by simp
  show ?thesis using o e p rl m by simp
qed

section \<open>Unknown event kinds\<close>

text \<open>
  C7. When the consumer reaches a well-formed frame whose \<open>type\<close> is a string other than
  \<open>sources\<close>, \<open>answer\<close>, \<open>done\<close> and \<open>error\<close>, the parsed value itself is yielded as
  the next event, its \<open>type\<close> being that string; the event is not terminal, and if the
  consumer asks for more the run goes on with the lines after the frame.
\<close>

theorem queryStream_unknown_kind_forwarded:
  assumes "ok r" and "body r = Some tr"
    and lines: "butlast (split_nl (stream_text env tr)) = pre @ frame # post"
    and frame: "startsWith frame ''data: ''"
    and wf: "json_parse env (slice_from frame 6) = Some data"
    and kind: "get_prop data ''type'' = Inr (Some (JStr kind))"
    and unknown: "kind \<notin> {''sources'', ''answer'', ''done'', ''error''}"
    and reach: "for_lines env after pre trace0 = (None, t1)"
    and pulls: "after (events t1 @ [data]) = Next"
  shows "take (Suc (length (events t1))) (events (snd (queryStream env after r))) = events t1 @ [data]
       \<and> get_prop (events (snd (queryStream env after r)) ! length (events t1)) ''type'' = Inr (Some (JStr kind))
       \<and> \<not> terminal_event data
       \<and> forget_reads (queryStream env after r) =
           close_run (finish (ending tr)
             (for_lines env after post
                (t1\<lparr>parsed := parsed t1 @ [slice_from frame 6], events := events t1 @ [data]\<rparr>)))"
proof -
  let ?t2 = "t1\<lparr>parsed := parsed t1 @ [slice_from frame 6], events := events t1 @ [data]\<rparr>"
  have nt: "\<not> is_terminal (Some (JStr kind))" using unknown by (simp add: is_terminal_def)
  then have a: "\<not> terminal_event data" using kind by (simp add: terminal_event_def)
  have fl: "for_lines env after (pre @ frame # post) trace0 = for_lines env after post ?t2"
    using reach frame wf kind nt pulls by (simp add: for_lines_append Let_def)
  have q: "forget_reads (queryStream env after r) =
             close_run (finish (ending tr) (for_lines env after post ?t2))"
    using queryStream_close_run [OF assms(1,2), of env after] lines fl by simp
  obtain es where es: "events (snd (for_lines env after post ?t2)) = events ?t2 @ es"
    using for_lines_events_prefix [of env after post ?t2] by auto
  have "events (snd (forget_reads (queryStream env after r))) = events t1 @ data # es"
    unfolding q using es by (simp add: close_run_def finish_def split: option.splits)
  then have ev: "events (snd (queryStream env after r)) = events t1 @ data # es"
    by (simp add: forget_reads_def)
  then have b: "take (Suc (length (events t1))) (events (snd (queryStream env after r))) = events t1 @ [data]"
    and c: "events (snd (queryStream env after r)) ! length (events t1) = data"
    by simp_all
  show ?thesis using a b c kind q by simp
qed

section \<open>Partial lines\<close>

text \<open>
  C8. In one turn of the read loop the text after the last line feed of buffer and chunk
  is not handed to the line loop: it is the buffer of the next turn, where the next
  chunk is appended to it. A chunk that brings no line feed only extends the buffer. When
  the reads end, whatever the buffer holds is dropped: the generator finishes with no
  further parse and no further event. So only payloads of frames, which are complete
  lines, are ever parsed.
\<close>

theorem read_loop_partial_line:
  "(decode env d chunk = (decoded, d1) \<and> buffer @ decoded = pre @ newline # frag \<and> newline \<notin> set frag \<longrightarrow>
      read_loop env after buffer d (chunk # later) fin t =
        (case for_lines env after (split_nl pre) (t\<lparr>reads := reads t + 1\<rparr>) of
           (Some out, t2) \<Rightarrow> (out, t2)
         | (None, t2) \<Rightarrow> read_loop env after frag d1 later fin t2))
   \<and> (decode env d chunk = (decoded, d1) \<and> newline \<notin> set (buffer @ decoded) \<longrightarrow>
      read_loop env after buffer d (chunk # later) fin t =
        read_loop env after (buffer @ decoded) d1 later fin (t\<lparr>reads := reads t + 1\<rparr>))
   \<and> read_loop env after buffer d [] EndOfStream t = (Finished, t\<lparr>reads := reads t + 1\<rparr>)
   \<and> (ok r \<and> body r = Some tr \<longrightarrow>
        set (parsed (snd (queryStream env after r))) \<subseteq>
          (\<lambda>l. slice_from l 6) ` set (frames (stream_text env tr)))"
proof (intro conjI impI)
  assume a: "decode env d chunk = (decoded, d1) \<and> buffer @ decoded = pre @ newline # frag \<and> newline \<notin> set frag"
  then have sp: "split_nl (buffer @ decoded) = split_nl pre @ [frag]"
    by (simp add: split_nl_append_nl split_nl_no_nl)
  show "read_loop env after buffer d (chunk # later) fin t =
        (case for_lines env after (split_nl pre) (t\<lparr>reads := reads t + 1\<rparr>) of
           (Some out, t2) \<Rightarrow> (out, t2)
         | (None, t2) \<Rightarrow> read_loop env after frag d1 later fin t2)"
    using a sp by (auto simp: pop_def or_empty_def split: prod.splits option.splits)
next
  assume a: "decode env d chunk = (decoded, d1) \<and> newline \<notin> set (buffer @ decoded)"
  then have sp: "split_nl (buffer @ decoded) = [buffer @ decoded]"
    using split_nl_no_nl [of "buffer @ decoded"] by simp
  show "read_loop env after buffer d (chunk # later) fin t =
          read_loop env after (buffer @ decoded) d1 later fin (t\<lparr>reads := reads t + 1\<rparr>)"
    using a sp by (auto simp: pop_def or_empty_def split: prod.splits option.splits)
next
  show "read_loop env after buffer d [] EndOfStream t = (Finished, t\<lparr>reads := reads t + 1\<rparr>)"
    by simp
next
  assume a: "ok r \<and> body r = Some tr"
  let ?ls = "butlast (split_nl (stream_text env tr))"
  have q: "forget_reads (queryStream env after r) = close_run (finish (ending tr) (for_lines env after ?ls trace0))"
    using queryStream_close_run [of r tr env after] a by simp
  have "parsed (snd (forget_reads (queryStream env after r))) = parsed (snd (for_lines env after ?ls trace0))"
    unfolding q by (simp add: close_run_def finish_def split: option.splits)
  then have "parsed (snd (queryStream env after r)) = parsed (snd (for_lines env after ?ls trace0))"
    by (simp add: forget_reads_def)
  then show "set (parsed (snd (queryStream env after r))) \<subseteq>
          (\<lambda>l. slice_from l 6) ` set (frames (stream_text env tr))"
    using for_lines_parsed_frames [of env after ?ls trace0] by (simp add: frames_def trace0_def)
qed

section \<open>Release of the reader\<close>

text \<open>The number of releases of a run.\<close>

lemma queryStream_released_count:
  "released (snd (queryStream env after r)) =
     (if ok r \<and> body r \<noteq> None \<and> fst (queryStream env after r) \<noteq> Suspended then 1 else 0)"
proof (cases "ok r \<and> body r \<noteq> None")
  case False
  then show ?thesis using queryStream_not_started [of r env after] by (simp add: trace0_def)
next
  case True
  then obtain tr where a: "ok r" "body r = Some tr" by auto
  have q: "forget_reads (queryStream env after r) =
        close_run (finish (ending tr) (for_lines env after (butlast (split_nl (stream_text env tr))) trace0))"
    by (rule queryStream_close_run [OF a])
  have "released (snd (forget_reads (queryStream env after r))) =
        (if fst (forget_reads (queryStream env after r)) = Suspended then 0 else 1)"
    unfolding q by (simp add: close_run_def)
  then show ?thesis using True by (simp add: forget_reads_def)
qed

lemma queryStream_suspended_started:
  "fst (queryStream env after r) = Suspended \<Longrightarrow> ok r \<and> body r \<noteq> None"
  by (auto simp: queryStream_def Let_def split: sum.splits option.splits if_splits)

text \<open>
  C4. Once the reader is acquired, \<open>releaseLock\<close> is called exactly once on every way
  out of the generator: return after a terminal event, end of the reads, a rejected read,
  a parse error or a failed property read, and the consumer closing the sequence before a
  terminal event. A generator that is still suspended at a \<open>yield\<close> has not been left
  and has not released; closing it then releases once. Closing a generator again, or one
  that has finished, releases nothing more. A request that fails before the reader exists
  has nothing to release.
\<close>

theorem queryStream_release:
  "released (snd (queryStream env after r)) =
     (if ok r \<and> body r \<noteq> None \<and> fst (queryStream env after r) \<noteq> Suspended then 1 else 0)
   \<and> released (snd (gen_return (queryStream env after r))) =
     (if ok r \<and> body r \<noteq> None then 1 else 0)
   \<and> gen_return (gen_return (queryStream env after r)) = gen_return (queryStream env after r)"
proof -
  note c = queryStream_released_count [of env after r]
  have a: "released (snd (gen_return (queryStream env after r))) =
             (if ok r \<and> body r \<noteq> None then 1 else 0)"
  proof (cases "fst (queryStream env after r) = Suspended")
    case True
    then show ?thesis using c queryStream_suspended_started [OF True] by (simp add: gen_return_def)
  next
    case False
    then show ?thesis using c by (simp add: gen_return_def)
  qed
  have b: "gen_return (gen_return x) = gen_return x" for x :: "outcome \<times> trace"
    by (simp add: gen_return_def)
  show ?thesis using c a b by simp
qed

section \<open>Instances\<close>


lemmas line_defs = sample_defs malformed_line_def startsWith_def slice_from_def is_terminal_def
  pull_all_def trace0_def stream_text_def

text \<open>
  C3, an instance: an \<open>answer\<close> frame, a malformed frame and a \<open>done\<close> frame in one chunk.
\<close>

theorem queryStream_malformed_frame_fatal_witness:
  "fst (queryStream sample_platform pull_all
          (stream_response [frame_line answer_payload @ malformed_line @ [newline] @ frame_line done_payload]))
     = Threw SyntaxError
   \<and> events (snd (queryStream sample_platform pull_all
          (stream_response [frame_line answer_payload @ malformed_line @ [newline] @ frame_line done_payload])))
     = [answer_event]
   \<and> parsed (snd (queryStream sample_platform pull_all
          (stream_response [frame_line answer_payload @ malformed_line @ [newline] @ frame_line done_payload])))
     = [answer_payload, ''{oops'']
   \<and> released (snd (queryStream sample_platform pull_all
          (stream_response [frame_line answer_payload @ malformed_line @ [newline] @ frame_line done_payload])))
     = 1"
proof -
  let ?cs = "[frame_line answer_payload @ malformed_line @ [newline] @ frame_line done_payload]"
  let ?tr = "\<lparr>chunks = ?cs, ending = EndOfStream\<rparr>"
  let ?t1 = "\<lparr>events = [answer_event], parsed = [answer_payload], reads = 0, released = 0\<rparr>"
  have a: "ok (stream_response ?cs)" and b: "body (stream_response ?cs) = Some ?tr"
    by (simp_all add: stream_response_def)
  have c: "butlast (split_nl (stream_text sample_platform ?tr)) =
             [''data: '' @ answer_payload] @ malformed_line # [''data: '' @ done_payload]"
    by (simp add: line_defs)
  have d: "startsWith malformed_line ''data: ''" by (simp add: line_defs)
  have e: "json_parse sample_platform (slice_from malformed_line 6) = None" by (simp add: line_defs)
  have f: "for_lines sample_platform pull_all [''data: '' @ answer_payload] trace0 = (None, ?t1)"
    by (simp add: line_defs)
  show ?thesis
    using queryStream_malformed_frame_fatal [OF a b c d e f]
    by (simp add: malformed_line_def slice_from_def)
qed

text \<open>
  C7, an instance: a frame of the unknown kind \<open>ping\<close> is yielded as it is, and the
  \<open>answer\<close> frame after it is yielded too.
\<close>

theorem queryStream_unknown_kind_forwarded_witness:
  "forget_reads (queryStream sample_platform pull_all
       (stream_response [frame_line ping_payload @ frame_line answer_payload]))
     = (Finished, \<lparr>events = [ping_event, answer_event], parsed = [ping_payload, answer_payload],
                   reads = 0, released = 1\<rparr>)
   \<and> get_prop ping_event ''type'' = Inr (Some (JStr ''ping''))"
proof -
  let ?cs = "[frame_line ping_payload @ frame_line answer_payload]"
  let ?tr = "\<lparr>chunks = ?cs, ending = EndOfStream\<rparr>"
  have a: "ok (stream_response ?cs)" and b: "body (stream_response ?cs) = Some ?tr"
    by (simp_all add: stream_response_def)
  have c: "butlast (split_nl (stream_text sample_platform ?tr)) =
             [] @ (''data: '' @ ping_payload) # [''data: '' @ answer_payload]"
    by (simp add: line_defs)
  have d: "startsWith (''data: '' @ ping_payload) ''data: ''" by (simp add: line_defs)
  have e: "json_parse sample_platform (slice_from (''data: '' @ ping_payload) 6) = Some ping_event"
    by (simp add: line_defs)
  have f: "get_prop ping_event ''type'' = Inr (Some (JStr ''ping''))" by (simp add: ping_event_def)
  have g: "''ping'' \<notin> {''sources'', ''answer'', ''done'', ''error''}" by simp
  have h: "for_lines sample_platform pull_all [] trace0 = (None, trace0)" by simp
  have i: "pull_all (events trace0 @ [ping_event]) = Next" by (simp add: pull_all_def)
  show ?thesis
    using queryStream_unknown_kind_forwarded [OF a b c d e f g h i] f
    by (simp add: line_defs close_run_def finish_def end_outcome_def)
qed

text \<open>
  C8, instances. A chunk ends twelve bytes into a \<open>done\<close> frame that follows an
  \<open>answer\<close> frame: when the reads end there, the fragment is dropped and the run finishes
  with the one event before it; when the rest of the frame comes in a second chunk, the
  frame is parsed and yielded. A chunk that is only the fragment extends the buffer and
  nothing is parsed.
\<close>

theorem read_loop_partial_line_witness:
  "read_loop sample_platform pull_all [] ()
     [frame_line answer_payload @ take 12 (frame_line done_payload)] EndOfStream trace0
     = (Finished, \<lparr>events = [answer_event], parsed = [answer_payload], reads = 2, released = 0\<rparr>)
   \<and> read_loop sample_platform pull_all [] ()
     [frame_line answer_payload @ take 12 (frame_line done_payload), drop 12 (frame_line done_payload)]
     EndOfStream trace0
     = (Returned, \<lparr>events = [answer_event, done_event], parsed = [answer_payload, done_payload],
                   reads = 2, released = 0\<rparr>)
   \<and> read_loop sample_platform pull_all [] () [take 12 (frame_line done_payload)] EndOfStream trace0
     = (Finished, \<lparr>events = [], parsed = [], reads = 2, released = 0\<rparr>)
   \<and> set (parsed (snd (queryStream sample_platform pull_all
        (stream_response [frame_line answer_payload @ take 12 (frame_line done_payload)]))))
     \<subseteq> {answer_payload}"
proof -
  let ?c1 = "frame_line answer_payload @ take 12 (frame_line done_payload)"
  let ?frag = "take 12 (frame_line done_payload)"
  let ?t1 = "\<lparr>events = [answer_event], parsed = [answer_payload], reads = 1, released = 0\<rparr>"
  have dec: "decode sample_platform () c = (c, ())" for c by (simp add: sample_platform_def)
  have cut: "[] @ ?c1 = (''data: '' @ answer_payload) @ newline # ?frag"
    by (simp add: frame_line_def)
  have nonl: "newline \<notin> set ?frag" by (simp add: line_defs)
  have fl: "for_lines sample_platform pull_all (split_nl (''data: '' @ answer_payload))
              (trace0\<lparr>reads := reads trace0 + 1\<rparr>) = (None, ?t1)"
    by (simp add: line_defs)
  note th = read_loop_partial_line [of sample_platform "()" ?c1 ?c1 "()" "[]"
      "''data: '' @ answer_payload" ?frag pull_all]
  have step: "read_loop sample_platform pull_all [] () (?c1 # later) fin trace0 =
                read_loop sample_platform pull_all ?frag () later fin ?t1" for later fin
    using th [of later fin trace0] dec cut nonl fl by simp
  have stop_here: "read_loop sample_platform pull_all ?frag () [] EndOfStream t =
                (Finished, t\<lparr>reads := reads t + 1\<rparr>)" for t
    using read_loop_partial_line [of sample_platform "()" ?c1 ?c1 "()" ?frag
      "''data: '' @ answer_payload" ?frag pull_all "[]" EndOfStream t] by blast
  have go_on: "read_loop sample_platform pull_all ?frag () [drop 12 (frame_line done_payload)] EndOfStream ?t1
       = (Returned, \<lparr>events = [answer_event, done_event], parsed = [answer_payload, done_payload],
                   reads = 2, released = 0\<rparr>)"
    by (simp add: line_defs pop_def or_empty_def)
  have a: "read_loop sample_platform pull_all [] () [?c1] EndOfStream trace0
     = (Finished, \<lparr>events = [answer_event], parsed = [answer_payload], reads = 2, released = 0\<rparr>)"
    using step [of "[]" EndOfStream] stop_here [of ?t1] by simp
  have b: "read_loop sample_platform pull_all [] () [?c1, drop 12 (frame_line done_payload)] EndOfStream trace0
     = (Returned, \<lparr>events = [answer_event, done_event], parsed = [answer_payload, done_payload],
                   reads = 2, released = 0\<rparr>)"
    using step [of "[drop 12 (frame_line done_payload)]" EndOfStream] go_on by simp
  have nonl2: "newline \<notin> set ([] @ ?frag)" using nonl by simp
  have extend: "read_loop sample_platform pull_all [] () [?frag] EndOfStream trace0 =
                read_loop sample_platform pull_all ([] @ ?frag) () [] EndOfStream
                  (trace0\<lparr>reads := reads trace0 + 1\<rparr>)"
    using read_loop_partial_line [of sample_platform "()" ?frag ?frag "()" "[]"
      "[]" "[]" pull_all "[]" EndOfStream trace0] dec [of ?frag] nonl2 by blast
  have c: "read_loop sample_platform pull_all [] () [?frag] EndOfStream trace0
     = (Finished, \<lparr>events = [], parsed = [], reads = 2, released = 0\<rparr>)"
    using extend stop_here [of "trace0\<lparr>reads := reads trace0 + 1\<rparr>"] by (simp add: trace0_def)
  let ?r = "stream_response [?c1]"
  let ?tr = "\<lparr>chunks = [?c1], ending = EndOfStream\<rparr>"
  have okb: "ok ?r \<and> body ?r = Some ?tr" by (simp add: stream_response_def)
  have fr: "frames (stream_text sample_platform ?tr) = [''data: '' @ answer_payload]"
    by (simp add: frames_def line_defs)
  have "set (parsed (snd (queryStream sample_platform pull_all ?r))) \<subseteq>
          (\<lambda>l. slice_from l 6) ` set (frames (stream_text sample_platform ?tr))"
    using read_loop_partial_line [of sample_platform "()" ?c1 ?c1 "()" "[]"
      "''data: '' @ answer_payload" ?frag pull_all "[]" EndOfStream trace0 ?r ?tr] okb by blast
  then have d: "set (parsed (snd (queryStream sample_platform pull_all ?r))) \<subseteq> {answer_payload}"
    unfolding fr by (simp add: slice_from_def)
  show ?thesis using a b c d by simp
qed

text \<open>
  A consumer that takes the \<open>sources\<close> event and then neither pulls nor closes the
  sequence leaves the generator suspended: the reader is not released until it is closed.
\<close>

lemma queryStream_stalled_consumer_keeps_lock:
  "events (snd (queryStream sample_platform stall_after_first
      (stream_response [frame_line sources_payload, frame_line done_payload]))) = [sources_event]
   \<and> released (snd (queryStream sample_platform stall_after_first
      (stream_response [frame_line sources_payload, frame_line done_payload]))) = 0"
  by (simp add: line_defs queryStream_def pop_def or_empty_def stall_after_first_def)

text \<open>
  C4, instances: one run for each way out of the generator, each with one release, and a
  suspended run closed afterwards.
\<close>

theorem queryStream_release_witness:
  "released (snd (queryStream sample_platform pull_all (stream_response [frame_line done_payload]))) = 1
   \<and> released (snd (queryStream sample_platform pull_all (stream_response [frame_line answer_payload]))) = 1
   \<and> released (snd (queryStream sample_platform pull_all (stream_response [malformed_line @ [newline]]))) = 1
   \<and> released (snd (queryStream sample_platform pull_all (stream_response [frame_line ''null'']))) = 1
   \<and> released (snd (queryStream sample_platform pull_all (failing_response [frame_line answer_payload]))) = 1
   \<and> released (snd (queryStream sample_platform close_after_first
        (stream_response [frame_line sources_payload, frame_line done_payload]))) = 1
   \<and> released (snd (gen_return (queryStream sample_platform stall_after_first
        (stream_response [frame_line sources_payload, frame_line done_payload])))) = 1"
proof -
  have 1: "fst (queryStream sample_platform pull_all (stream_response [frame_line done_payload])) = Returned"
    by (simp add: line_defs queryStream_def pop_def or_empty_def)
  have 2: "fst (queryStream sample_platform pull_all (stream_response [frame_line answer_payload])) = Finished"
    by (simp add: line_defs queryStream_def pop_def or_empty_def)
  have 3: "fst (queryStream sample_platform pull_all (stream_response [malformed_line @ [newline]])) = Threw SyntaxError"
    by (simp add: line_defs queryStream_def pop_def or_empty_def)
  have 4: "fst (queryStream sample_platform pull_all (stream_response [frame_line ''null''])) = Threw TypeError"
    by (simp add: line_defs queryStream_def pop_def or_empty_def)
  have 5: "fst (queryStream sample_platform pull_all (failing_response [frame_line answer_payload])) = Threw TransportError"
    by (simp add: line_defs queryStream_def pop_def or_empty_def failing_response_def)
  have 6: "fst (queryStream sample_platform close_after_first
        (stream_response [frame_line sources_payload, frame_line done_payload])) = Abandoned"
    by (simp add: line_defs queryStream_def pop_def or_empty_def close_after_first_def)
  have ok: "ok (stream_response cs) \<and> body (stream_response cs) \<noteq> None"
    "ok (failing_response cs) \<and> body (failing_response cs) \<noteq> None" for cs
    by (simp_all add: stream_response_def failing_response_def)
  show ?thesis
    using queryStream_release [of sample_platform pull_all "stream_response [frame_line done_payload]"]
      queryStream_release [of sample_platform pull_all "stream_response [frame_line answer_payload]"]
      queryStream_release [of sample_platform pull_all "stream_response [malformed_line @ [newline]]"]
      queryStream_release [of sample_platform pull_all "stream_response [frame_line ''null'']"]
      queryStream_release [of sample_platform pull_all "failing_response [frame_line answer_payload]"]
      queryStream_release [of sample_platform close_after_first
        "stream_response [frame_line sources_payload, frame_line done_payload]"]
      queryStream_release [of sample_platform stall_after_first
        "stream_response [frame_line sources_payload, frame_line done_payload]"]
      1 2 3 4 5 6 ok
    by simp
qed


section \<open>Errors of the request\<close>

text \<open>What \<open>handleResponse\<close> surfaces for a response that is not a success.\<close>

lemma handleResponse_structured_error:
  assumes "\<not> ok r" and "json_body r = Some (JObj kvs)"
    and "map_of kvs ''error'' = Some (JStr m)" and "m \<noteq> []"
  shows "handleResponse env r = Inl (APIError m (status r) (map_of kvs ''detail''))"
  using assms by (simp add: handleResponse_def js_or_def)

lemma handleResponse_unparsable_error:
  assumes "\<not> ok r" and "json_body r = None"
  shows "handleResponse env r =
           Inl (APIError ''Unknown error'' (status r) (Some (JStr (statusText r))))"
  using assms by (simp add: handleResponse_def js_or_def)

text \<open>
  An error field that is not text is turned into text by the constructor of the error:
  the body \<open>{"error": true}\<close> gives the message \<open>true\<close>.
\<close>

lemma handleResponse_message_coerced:
  assumes "\<not> ok r" and "json_body r = Some (JObj [(''error'', JBool True)])"
  shows "handleResponse env r = Inl (APIError ''true'' (status r) None)"
  using assms by (simp add: handleResponse_def js_or_def)

text \<open>What \<open>queryStream\<close> surfaces for it: the same message and status, never a detail.\<close>

lemma queryStream_structured_error:
  assumes "\<not> ok r" and "json_body r = Some (JObj kvs)"
    and "map_of kvs ''error'' = Some (JStr m)" and "m \<noteq> []"
  shows "queryStream env after r = (Threw (APIError m (status r) None), trace0)"
  using assms by (simp add: queryStream_def js_or_def)

lemma queryStream_unparsable_error:
  assumes "\<not> ok r" and "json_body r = None"
  shows "queryStream env after r = (Threw (APIError ''Unknown error'' (status r) None), trace0)"
  using assms by (simp add: queryStream_def js_or_def)

text \<open>A request that fails before the reader exists yields nothing and reads nothing.\<close>

lemma queryStream_fails_before_events:
  assumes "\<not> ok r \<or> body r = None"
  shows "snd (queryStream env after r) = trace0 \<and> (\<exists>e. fst (queryStream env after r) = Threw e)"
  using assms by (auto simp: queryStream_def Let_def split: sum.splits option.splits)

text \<open>
  C5. The streaming endpoint drops the detail of a structured error document that every
  other endpoint surfaces: for the same response \<open>handleResponse\<close> raises the error with
  its detail, \<open>queryStream\<close> without.
\<close>

theorem queryStream_api_error_drops_detail:
  "fst (queryStream sample_platform pull_all error_response)
     = Threw (APIError ''boom'' 500 None)
   \<and> query sample_platform error_response = Inl (APIError ''boom'' 500 (Some (JStr ''trace'')))
   \<and> checkHealth sample_platform error_response = Inl (APIError ''boom'' 500 (Some (JStr ''trace'')))
   \<and> uploadDocument sample_platform error_response = Inl (APIError ''boom'' 500 (Some (JStr ''trace'')))
   \<and> deleteDocument sample_platform error_response = Inl (APIError ''boom'' 500 (Some (JStr ''trace'')))"
  by (simp add: error_response_def queryStream_def handleResponse_def query_def checkHealth_def
      uploadDocument_def deleteDocument_def js_or_def)

text \<open>
  C6. A failed request whose error body is the JSON document \<open>null\<close> yields no event, but
  what reaches the caller is the TypeError of reading \<open>error\<close> from \<open>null\<close>, not an
  \<open>APIError\<close> with the status.
\<close>

theorem queryStream_null_error_body:
  "queryStream sample_platform pull_all null_error_response = (Threw TypeError, trace0)
   \<and> query sample_platform null_error_response = Inl TypeError"
  by (simp add: null_error_response_def queryStream_def handleResponse_def query_def)

section \<open>Similarity scores\<close>

lemma queryStream_events_are_parses:
  "map (json_parse env) (parsed (snd (queryStream env after r))) =
     map Some (events (snd (queryStream env after r))) @
       (if fst (queryStream env after r) = Threw SyntaxError then [None] else [])"
proof (cases "ok r \<and> body r \<noteq> None")
  case False
  then have "\<not> ok r \<or> body r = None" by simp
  from queryStream_fails_before_events [OF this, of env after]
  have t: "snd (queryStream env after r) = trace0" and e: "\<exists>e. fst (queryStream env after r) = Threw e"
    by simp_all
  have "fst (queryStream env after r) \<noteq> Threw SyntaxError"
    using False by (auto simp: queryStream_def Let_def split: sum.splits option.splits dest: get_prop_error)
  then show ?thesis using t by (simp add: trace0_def)
next
  case True
  then obtain tr where a: "ok r" "body r = Some tr" by auto
  let ?ls = "butlast (split_nl (stream_text env tr))"
  obtain res t1 where fl: "for_lines env after ?ls trace0 = (res, t1)"
    by (cases "for_lines env after ?ls trace0")
  have q: "forget_reads (queryStream env after r) = close_run (finish (ending tr) (res, t1))"
    using queryStream_close_run [OF a, of env after] fl by simp
  then have o: "fst (queryStream env after r) = fst (finish (ending tr) (res, t1))"
    by (simp add: forget_reads_def close_run_def)
  have "events (snd (forget_reads (queryStream env after r))) = events t1"
    and "parsed (snd (forget_reads (queryStream env after r))) = parsed t1"
    unfolding q by (simp_all add: close_run_def finish_def split: option.splits)
  then have e: "events (snd (queryStream env after r)) = events t1"
    and p: "parsed (snd (queryStream env after r)) = parsed t1"
    by (simp_all add: forget_reads_def)
  have m: "map (json_parse env) (parsed t1) =
        map Some (events t1) @ (if res = Some (Threw SyntaxError) then [None] else [])"
    by (rule for_lines_parsed [OF _ fl]) (simp add: trace0_def)
  have "(fst (finish (ending tr) (res, t1)) = Threw SyntaxError) = (res = Some (Threw SyntaxError))"
    by (cases res) (auto simp: finish_def end_outcome_def split: stream_end.splits)
  then show ?thesis using m e p o by simp
qed

text \<open>A frame that is parsed is yielded, whatever the consumer does next.\<close>

lemma for_lines_yields:
  assumes "startsWith l ''data: ''" and "json_parse env (slice_from l 6) = Some data"
  shows "\<exists>es. events (snd (for_lines env after (l # rest) t)) = events t @ data # es"
proof -
  let ?t2 = "t\<lparr>parsed := parsed t @ [slice_from l 6], events := events t @ [data]\<rparr>"
  obtain es where es: "events (snd (for_lines env after rest ?t2)) = events ?t2 @ es"
    using for_lines_events_prefix [of env after rest ?t2] by auto
  show ?thesis
    using assms es
    by (cases "after (events t @ [data])"; cases "get_prop data ''type''")
       (auto simp: Let_def)
qed

lemma queryStream_events_lines:
  assumes "ok r" and "body r = Some tr"
  shows "events (snd (queryStream env after r)) =
         events (snd (for_lines env after (butlast (split_nl (stream_text env tr))) trace0))"
proof -
  let ?fl = "for_lines env after (butlast (split_nl (stream_text env tr))) trace0"
  have "events (snd (forget_reads (queryStream env after r))) = events (snd ?fl)"
    unfolding queryStream_close_run [OF assms]
    by (simp add: close_run_def finish_def split: option.splits)
  then show ?thesis by (simp add: forget_reads_def)
qed

text \<open>The clamp of the view on a score that is a number or is missing.\<close>

lemma similarity_numeric:
  assumes "get_prop source ''similarity_score'' = Inr v" and "numeric_score v"
  shows "similarity env source = Inr (Some (clamp01 (score_value v)))"
proof -
  have "number_of env (nullish_or v (JNum 0)) = Some (score_value v)"
    using assms(2)
    by (auto simp: numeric_score_def nullish_or_def number_of_def score_value_def
        split: option.splits json.splits)
  then show ?thesis using assms(1)
    by (simp add: similarity_def Math_max_def Math_min_def clamp01_def max_def min_def)
qed

lemma clamp01_range: "0 \<le> clamp01 x \<and> clamp01 x \<le> 1"
  by (simp add: clamp01_def)

text \<open>
  C9, as amended. The streaming core hands a \<open>sources\<close> event to the caller as
  \<open>JSON.parse\<close> returned it, at its place in the sequence, so the similarity scores
  arrive as the backend sent them. For every source that the view renders from such an
  event and whose score is a number, or is missing or \<open>null\<close>, the view clamps the score
  into the unit interval, a missing score counting as 0, and the displayed percentage is
  the product of the clamped score with 100, computed in doubles and rounded to the
  nearest integer: an integer from 0 to 100, whatever the number.
\<close>

theorem similarity_percent_clamped:
  assumes "ok r" and "body r = Some tr"
    and lines: "butlast (split_nl (stream_text env tr)) = pre @ frame # post"
    and frame: "startsWith frame ''data: ''"
    and wf: "json_parse env (slice_from frame 6) = Some event"
    and reach: "for_lines env after pre trace0 = (None, t1)"
    and stored: "stored_sources event = Some (JArr sources)"
    and src: "source \<in> set sources"
    and score: "get_prop source ''similarity_score'' = Inr v"
    and num: "numeric_score v"
    and mult: "double_product env"
  shows "length (events t1) < length (events (snd (queryStream env after r)))
       \<and> events (snd (queryStream env after r)) ! length (events t1) = event
       \<and> similarity env source = Inr (Some (clamp01 (score_value v)))
       \<and> percent env source = Inr (Some (round (multiply env (clamp01 (score_value v)) 100)))
       \<and> (\<exists>p. percent env source = Inr (Some p) \<and> 0 \<le> p \<and> p \<le> 100)"
proof -
  have fl: "for_lines env after (pre @ frame # post) trace0 = for_lines env after (frame # post) t1"
    using reach by (simp add: for_lines_append)
  obtain es where "events (snd (for_lines env after (frame # post) t1)) = events t1 @ event # es"
    using for_lines_yields [OF frame wf, of after post t1] by auto
  then have ev: "events (snd (queryStream env after r)) = events t1 @ event # es"
    using queryStream_events_lines [OF assms(1,2), of env after] lines fl by simp
  have a: "length (events t1) < length (events (snd (queryStream env after r)))"
    and b: "events (snd (queryStream env after r)) ! length (events t1) = event"
    using ev by simp_all
  let ?c = "clamp01 (score_value v)"
  have s: "similarity env source = Inr (Some ?c)"
    by (rule similarity_numeric [OF score num])
  have p: "percent env source = Inr (Some (round (multiply env ?c 100)))"
    using s by (simp add: percent_def times_def Math_round_def round_def)
  have lo: "0 \<le> multiply env ?c 100" and hi: "multiply env ?c 100 \<le> 100"
    using mult clamp01_range [of "score_value v"] unfolding double_product_def by metis+
  have "0 \<le> round (multiply env ?c 100)" using lo by (simp add: round_def)
  moreover have "round (multiply env ?c 100) \<le> 100"
  proof -
    have "multiply env ?c 100 + 1 / 2 < 101" using hi by simp
    then have "\<lfloor>multiply env ?c 100 + 1 / 2\<rfloor> < 101" by (simp add: floor_less_iff)
    then show ?thesis by (simp add: round_def)
  qed
  ultimately show ?thesis using a b s p by simp
qed

text \<open>
  C9, as stated, fails: the core yields unchanged a \<open>sources\<close> event whose chunk has the
  text \<open>high\<close> for its score, the view renders that chunk, and what it displays is
  \<open>NaN\<close>, no percentage from 0 to 100.
\<close>

theorem similarity_percent_text_score:
  "events (snd (queryStream sample_platform pull_all (stream_response [frame_line text_score_payload])))
     = [text_score_event]
   \<and> stored_sources text_score_event = Some (JArr [text_score_chunk])
   \<and> similarity sample_platform text_score_chunk = Inr None
   \<and> percent sample_platform text_score_chunk = Inr None"
  by (simp add: sample_defs queryStream_def trace0_def pop_def or_empty_def startsWith_def
      slice_from_def is_terminal_def pull_all_def stored_sources_def text_score_chunk_def
      similarity_def percent_def nullish_or_def number_of_def sample_to_number_def Math_max_def
      Math_min_def times_def Math_round_def)

text \<open>
  C9, instances: a chunk with the score 1.5 is displayed as 100, a chunk without a score
  as 0; both come from a \<open>sources\<close> event that the core yields as parsed.
\<close>

theorem similarity_percent_clamped_witness:
  "events (snd (queryStream sample_platform pull_all (stream_response [frame_line scored_payload])))
     ! 0 = scored_event
   \<and> stored_sources scored_event = Some (JArr [high_chunk, unscored_chunk])
   \<and> double_product sample_platform
   \<and> percent sample_platform high_chunk = Inr (Some 100)
   \<and> percent sample_platform unscored_chunk = Inr (Some 0)"
proof -
  let ?cs = "[frame_line scored_payload]"
  let ?tr = "\<lparr>chunks = ?cs, ending = EndOfStream\<rparr>"
  have a: "ok (stream_response ?cs)" and b: "body (stream_response ?cs) = Some ?tr"
    by (simp_all add: stream_response_def)
  have c: "butlast (split_nl (stream_text sample_platform ?tr)) = [] @ (''data: '' @ scored_payload) # []"
    by (simp add: stream_text_def sample_platform_def frame_line_def newline_def scored_payload_def
        metadata_text_def quoted_def)
  have d: "startsWith (''data: '' @ scored_payload) ''data: ''" by (simp add: startsWith_def)
  have e: "json_parse sample_platform (slice_from (''data: '' @ scored_payload) 6) = Some scored_event"
    by (simp add: sample_defs slice_from_def)
  have f: "for_lines sample_platform pull_all [] trace0 = (None, trace0)" by simp
  have g: "stored_sources scored_event = Some (JArr [high_chunk, unscored_chunk])"
    by (simp add: stored_sources_def scored_event_def)
  have h1: "high_chunk \<in> set [high_chunk, unscored_chunk]"
    and h2: "unscored_chunk \<in> set [high_chunk, unscored_chunk]" by simp_all
  have s1: "get_prop high_chunk ''similarity_score'' = Inr (Some (JNum (3 / 2)))"
    by (simp add: high_chunk_def)
  have s2: "get_prop unscored_chunk ''similarity_score'' = Inr None"
    by (simp add: unscored_chunk_def)
  have n1: "numeric_score (Some (JNum (3 / 2)))" and n2: "numeric_score None"
    by (simp_all add: numeric_score_def)
  have m: "double_product sample_platform"
    by (simp add: double_product_def sample_platform_def)
  note t1 = similarity_percent_clamped [OF a b c d e f g h1 s1 n1 m]
  note t2 = similarity_percent_clamped [OF a b c d e f g h2 s2 n2 m]
  have p1: "percent sample_platform high_chunk = Inr (Some 100)"
    using t1 by (simp add: score_value_def clamp01_def sample_platform_def)
  have p2: "percent sample_platform unscored_chunk = Inr (Some 0)"
    using t2 by (simp add: score_value_def clamp01_def sample_platform_def)
  have ev: "events (snd (queryStream sample_platform pull_all (stream_response ?cs))) ! 0 = scored_event"
    using t1 by (simp add: trace0_def)
  show ?thesis using ev g m p1 p2 by simp
qed


section \<open>Properties of parseSections\<close>

text \<open>A match lies at or after the position the search started from, and is not empty.\<close>

lemma exec_from_bounds:
  "exec_from s i = Some (idx, cap, e) \<Longrightarrow> i \<le> idx \<and> idx < length s \<and> idx < e"
proof (induction s i rule: exec_from.induct)
  case (1 s i)
  show ?case
  proof (cases "i < length s")
    case False
    with "1.prems" show ?thesis by (simp add: exec_from.simps [of s i])
  next
    case lt: True
    show ?thesis
    proof (cases "line_start s i")
      case False
      with lt "1.prems" have "exec_from s (Suc i) = Some (idx, cap, e)"
        by (simp add: exec_from.simps [of s i])
      from "1.IH"(2) [OF lt False this] show ?thesis by simp
    next
      case ls: True
      show ?thesis
      proof (cases "match_here (drop i s)")
        case None
        with lt ls "1.prems" have "exec_from s (Suc i) = Some (idx, cap, e)"
          by (simp add: exec_from.simps [of s i])
        from "1.IH"(1) [OF lt ls None this] show ?thesis by simp
      next
        case (Some m)
        with lt ls "1.prems" show ?thesis
          by (cases m) (auto simp: exec_from.simps [of s i])
      qed
    qed
  qed
qed

lemma trim_empty_iff: "trim s = [] \<longleftrightarrow> (\<forall>c\<in>set s. is_ws c)"
proof -
  have "trim s = [] \<longleftrightarrow> (\<forall>c\<in>set (dropWhile is_ws s). is_ws c)"
    by (simp add: trim_def dropWhile_eq_Nil_conv)
  also have "\<dots> \<longleftrightarrow> dropWhile is_ws s = []"
  proof
    assume a: "\<forall>c\<in>set (dropWhile is_ws s). is_ws c"
    show "dropWhile is_ws s = []"
    proof (rule ccontr)
      assume n: "dropWhile is_ws s \<noteq> []"
      then have "\<not> is_ws (hd (dropWhile is_ws s))" by (rule hd_dropWhile)
      moreover have "hd (dropWhile is_ws s) \<in> set (dropWhile is_ws s)" using n by simp
      ultimately show False using a by blast
    qed
  qed (auto dest: set_dropWhileD)
  also have "\<dots> \<longleftrightarrow> (\<forall>c\<in>set s. is_ws c)" by (simp add: dropWhile_eq_Nil_conv)
  finally show ?thesis .
qed

lemma exec_from_None_iff:
  "exec_from s i = None \<longleftrightarrow> (\<forall>j. i \<le> j \<longrightarrow> \<not> heading_at s j)"
proof (induction s i rule: exec_from.induct)
  case (1 s i)
  show ?case
  proof (cases "i < length s")
    case False
    then show ?thesis by (simp add: exec_from.simps [of s i] heading_at_def)
  next
    case lt: True
    have split: "(\<forall>j. i \<le> j \<longrightarrow> \<not> heading_at s j) \<longleftrightarrow>
                 \<not> heading_at s i \<and> (\<forall>j. Suc i \<le> j \<longrightarrow> \<not> heading_at s j)"
      by (metis Suc_leI le_neq_implies_less Suc_leD order_refl)
    show ?thesis
    proof (cases "line_start s i")
      case False
      then have "\<not> heading_at s i" by (simp add: heading_at_def)
      moreover have "exec_from s i = exec_from s (Suc i)"
        using lt False by (simp add: exec_from.simps [of s i])
      ultimately show ?thesis using "1.IH"(2) [OF lt False] split by simp
    next
      case ls: True
      show ?thesis
      proof (cases "match_here (drop i s)")
        case None
        then have "\<not> heading_at s i" by (simp add: heading_at_def)
        moreover have "exec_from s i = exec_from s (Suc i)"
          using lt ls None by (simp add: exec_from.simps [of s i])
        ultimately show ?thesis using "1.IH"(1) [OF lt ls None] split by simp
      next
        case (Some m)
        then have "heading_at s i" using lt ls by (simp add: heading_at_def)
        moreover have "exec_from s i \<noteq> None"
          using lt ls Some by (cases m) (simp add: exec_from.simps [of s i])
        ultimately show ?thesis by auto
      qed
    qed
  qed
qed

lemma exec_from_heading:
  "exec_from s i = Some (idx, cap, e) \<Longrightarrow>
   heading_at s idx \<and> (\<exists>k. match_here (drop idx s) = Some (k, cap) \<and> e = idx + 2 + k + length cap)"
proof (induction s i rule: exec_from.induct)
  case (1 s i)
  show ?case
  proof (cases "i < length s")
    case False
    with "1.prems" show ?thesis by (simp add: exec_from.simps [of s i])
  next
    case lt: True
    show ?thesis
    proof (cases "line_start s i")
      case False
      with lt "1.prems" have "exec_from s (Suc i) = Some (idx, cap, e)"
        by (simp add: exec_from.simps [of s i])
      from "1.IH"(2) [OF lt False this] show ?thesis .
    next
      case ls: True
      show ?thesis
      proof (cases "match_here (drop i s)")
        case None
        with lt ls "1.prems" have "exec_from s (Suc i) = Some (idx, cap, e)"
          by (simp add: exec_from.simps [of s i])
        from "1.IH"(1) [OF lt ls None this] show ?thesis .
      next
        case (Some m)
        with lt ls "1.prems" show ?thesis
          by (cases m) (auto simp: exec_from.simps [of s i] heading_at_def)
      qed
    qed
  qed
qed

lemma collect_Nil_iff: "collect s i = [] \<longleftrightarrow> (\<forall>j. i \<le> j \<longrightarrow> \<not> heading_at s j)"
  using exec_from_None_iff [of s i]
  by (subst collect.simps) (auto split: option.splits)

text \<open>
  The matches come in order of appearance: each one is a heading position with its trimmed
  capture, and starts where the one before has ended or later.
\<close>

lemma collect_ordered:
  "sorted_wrt (<) (map index (collect s i)) \<and>
   (\<forall>m\<in>set (collect s i). i \<le> index m \<and> heading_at s (index m) \<and>
      (\<exists>k cap. match_here (drop (index m) s) = Some (k, cap) \<and> title m = trim cap))"
proof (induction s i rule: collect.induct)
  case (1 s i)
  show ?case
  proof (cases "exec_from s i")
    case None
    then show ?thesis by (simp add: collect.simps [of s i])
  next
    case (Some x)
    obtain idx cap e where x: "x = (idx, cap, e)" by (cases x) auto
    have ex: "exec_from s i = Some (idx, cap, e)" using Some x by simp
    have c: "collect s i = \<lparr>title = trim cap, index = idx\<rparr> # collect s e"
      using ex by (simp add: collect.simps [of s i])
    note b = exec_from_bounds [OF ex]
    note h = exec_from_heading [OF ex]
    have IH: "sorted_wrt (<) (map index (collect s e)) \<and>
        (\<forall>m\<in>set (collect s e). e \<le> index m \<and> heading_at s (index m) \<and>
          (\<exists>k cap. match_here (drop (index m) s) = Some (k, cap) \<and> title m = trim cap))"
      using "1.IH" [OF Some, of idx "(cap, e)" cap e] x by simp
    show ?thesis unfolding c using IH b h by fastforce
  qed
qed

text \<open>The search finds the first heading position, passing none.\<close>

lemma exec_from_first:
  "exec_from s i = Some (idx, cap, e) \<Longrightarrow> i \<le> j \<Longrightarrow> j < idx \<Longrightarrow> \<not> heading_at s j"
proof (induction s i rule: exec_from.induct)
  case (1 s i)
  have lt: "i < length s" using "1.prems"(1) by (cases "i < length s") (simp_all add: exec_from.simps [of s i])
  show ?case
  proof (cases "line_start s i \<and> match_here (drop i s) \<noteq> None")
    case True
    then obtain k c where "match_here (drop i s) = Some (k, c)" by auto
    then have "idx = i" using True lt "1.prems"(1) by (simp add: exec_from.simps [of s i])
    then show ?thesis using "1.prems"(2,3) by simp
  next
    case False
    then have ni: "\<not> heading_at s i" by (simp add: heading_at_def)
    have nx: "exec_from s (Suc i) = Some (idx, cap, e)"
      using False lt "1.prems"(1) by (auto simp: exec_from.simps [of s i] split: option.splits)
    show ?thesis
    proof (cases "j = i")
      case True
      then show ?thesis using ni by simp
    next
      case ne: False
      then have sj: "Suc i \<le> j" using "1.prems"(2) by simp
      show ?thesis
      proof (cases "line_start s i")
        case False
        from "1.IH"(2) [OF lt False nx sj "1.prems"(3)] show ?thesis .
      next
        case ls: True
        then have mh: "match_here (drop i s) = None"
          using \<open>\<not> (line_start s i \<and> match_here (drop i s) \<noteq> None)\<close>
          by (cases "match_here (drop i s)") auto
        from "1.IH"(1) [OF lt ls mh nx sj "1.prems"(3)] show ?thesis .
      qed
    qed
  qed
qed

text \<open>
  No heading position is passed over: each one is the start of a collected match or lies
  inside one.
\<close>

lemma collect_complete:
  "i \<le> j \<Longrightarrow> heading_at s j \<Longrightarrow>
   \<exists>m\<in>set (collect s i). index m \<le> j \<and> j < match_end s (index m)"
proof (induction s i rule: collect.induct)
  case (1 s i)
  have "exec_from s i \<noteq> None" using exec_from_None_iff [of s i] "1.prems" by auto
  then obtain idx cap e where ex: "exec_from s i = Some (idx, cap, e)" by (cases "exec_from s i") auto
  have c: "collect s i = \<lparr>title = trim cap, index = idx\<rparr> # collect s e"
    using ex by (simp add: collect.simps [of s i])
  from exec_from_heading [OF ex] obtain k where
    mh: "match_here (drop idx s) = Some (k, cap)" and e: "e = idx + 2 + k + length cap" by auto
  have me: "match_end s idx = e" using mh e by (simp add: match_end_def)
  have ge: "idx \<le> j" using exec_from_first [OF ex "1.prems"(1)] "1.prems"(2) by (meson not_le)
  show ?case
  proof (cases "j < e")
    case True
    then show ?thesis unfolding c using ge me by simp
  next
    case False
    then have "e \<le> j" by simp
    from "1.IH" [OF ex _ _ this "1.prems"(2), of idx "(cap, e)" cap]
    show ?thesis unfolding c by auto
  qed
qed

text \<open>
  The result in terms of the matches of the pattern. An input of white space only gives
  no section. An input that is not white space and has no position where the pattern
  matches gives the one section \<open>Answer\<close> holding the whole input. Otherwise there is one
  section for each match of the pattern, in order of appearance: the matches start at
  heading positions, one after the other, and pass over no heading position; the heading
  of a section is the trimmed capture of its match, its content the trimmed text from
  after the first line feed that follows the start of the match up to the start of the
  next match, or to the end of the input.
\<close>

lemma parseSections_matches:
  "((\<forall>c\<in>set s. is_ws c) \<longrightarrow> parseSections s = [])
   \<and> (\<not> (\<forall>c\<in>set s. is_ws c) \<and> (\<forall>j. \<not> heading_at s j) \<longrightarrow>
        parseSections s = [\<lparr>heading = units ''Answer'', content = s\<rparr>])
   \<and> (\<not> (\<forall>c\<in>set s. is_ws c) \<and> (\<exists>j. heading_at s j) \<longrightarrow>
        collect s 0 \<noteq> []
        \<and> length (parseSections s) = length (collect s 0)
        \<and> sorted_wrt (<) (map index (collect s 0))
        \<and> (\<forall>m\<in>set (collect s 0). heading_at s (index m) \<and>
              (\<exists>k cap. match_here (drop (index m) s) = Some (k, cap) \<and> title m = trim cap))
        \<and> (\<forall>j. heading_at s j \<longrightarrow>
              (\<exists>m\<in>set (collect s 0). index m \<le> j \<and> j < match_end s (index m)))
        \<and> (\<forall>i<length (collect s 0).
             parseSections s ! i =
               \<lparr>heading = title (collect s 0 ! i),
                content = trim (slice s (content_start s (index (collect s 0 ! i)))
                                  (if Suc i < length (collect s 0) then index (collect s 0 ! Suc i)
                                   else length s))\<rparr>))"
proof (intro conjI impI)
  assume "\<forall>c\<in>set s. is_ws c"
  then show "parseSections s = []" by (simp add: parseSections_def trim_empty_iff)
next
  assume a: "\<not> (\<forall>c\<in>set s. is_ws c) \<and> (\<forall>j. \<not> heading_at s j)"
  then have "collect s 0 = []" by (simp add: collect_Nil_iff)
  moreover have "trim s \<noteq> []" using a by (simp add: trim_empty_iff)
  ultimately show "parseSections s = [\<lparr>heading = units ''Answer'', content = s\<rparr>]"
    by (simp add: parseSections_def)
next
  assume a: "\<not> (\<forall>c\<in>set s. is_ws c) \<and> (\<exists>j. heading_at s j)"
  then have ne: "collect s 0 \<noteq> []" by (simp add: collect_Nil_iff)
  have tr: "trim s \<noteq> []" using a by (simp add: trim_empty_iff)
  show "collect s 0 \<noteq> []" by (rule ne)
  show "length (parseSections s) = length (collect s 0)"
    using ne tr by (simp add: parseSections_def Let_def)
  show "sorted_wrt (<) (map index (collect s 0))"
    using collect_ordered [of s 0] by blast
  show "\<forall>m\<in>set (collect s 0). heading_at s (index m) \<and>
              (\<exists>k cap. match_here (drop (index m) s) = Some (k, cap) \<and> title m = trim cap)"
    using collect_ordered [of s 0] by blast
  show "\<forall>j. heading_at s j \<longrightarrow>
              (\<exists>m\<in>set (collect s 0). index m \<le> j \<and> j < match_end s (index m))"
    using collect_complete [of 0 _ s] by simp
  show "\<forall>i<length (collect s 0).
             parseSections s ! i =
               \<lparr>heading = title (collect s 0 ! i),
                content = trim (slice s (content_start s (index (collect s 0 ! i)))
                                  (if Suc i < length (collect s 0) then index (collect s 0 ! Suc i)
                                   else length s))\<rparr>"
    using ne tr by (simp add: parseSections_def Let_def content_start_def)
qed

lemmas section_defs = parseSections_def collect.simps exec_from.simps line_start_def trim_def
  is_ws_def is_lt_def indexOf_nl_def slice_def units_def hash_def line_feed_def

text \<open>
  On a line without a line terminator the pattern matches from the start exactly when
  the line is a heading line in the words of the specification.
\<close>

lemma try_ws_iff:
  "try_ws k r \<noteq> None \<longleftrightarrow> (\<exists>j. 0 < j \<and> j \<le> k \<and> takeWhile (\<lambda>c. \<not> is_lt c) (drop j r) \<noteq> [])"
proof (induction k)
  case 0
  then show ?case by simp
next
  case (Suc k)
  show ?case
  proof (cases "takeWhile (\<lambda>c. \<not> is_lt c) (drop (Suc k) r) \<noteq> []")
    case True
    then show ?thesis by auto
  next
    case False
    then have "try_ws (Suc k) r = try_ws k r" by simp
    moreover have "(\<exists>j. 0 < j \<and> j \<le> Suc k \<and> takeWhile (\<lambda>c. \<not> is_lt c) (drop j r) \<noteq> []) \<longleftrightarrow>
                   (\<exists>j. 0 < j \<and> j \<le> k \<and> takeWhile (\<lambda>c. \<not> is_lt c) (drop j r) \<noteq> [])"
      using False by (metis le_Suc_eq)
    ultimately show ?thesis using Suc.IH by simp
  qed
qed

lemma match_here_heading_line:
  assumes "\<forall>c\<in>set l. \<not> is_lt c"
  shows "match_here l \<noteq> None \<longleftrightarrow> heading_line l"
proof (cases l)
  case Nil
  then show ?thesis by simp
next
  case l1: (Cons c1 r1)
  show ?thesis
  proof (cases r1)
    case Nil
    then show ?thesis using l1 by simp
  next
    case l2: (Cons c2 r)
    have nolt: "\<forall>c\<in>set r. \<not> is_lt c" using assms l1 l2 by simp
    have tw: "takeWhile (\<lambda>c. \<not> is_lt c) (drop j r) = drop j r" for j
      using nolt by (auto simp: takeWhile_eq_all_conv dest: in_set_dropD)
    have "try_ws (length (takeWhile is_ws r)) r \<noteq> None \<longleftrightarrow>
          (\<exists>j. 0 < j \<and> j \<le> length (takeWhile is_ws r) \<and> j < length r)"
      unfolding try_ws_iff tw by (simp add: not_le)
    also have "\<dots> \<longleftrightarrow> (\<exists>c3 c4 r'. r = c3 # c4 # r' \<and> is_ws c3)"
    proof
      assume "\<exists>j. 0 < j \<and> j \<le> length (takeWhile is_ws r) \<and> j < length r"
      then obtain j where j: "0 < j" "j \<le> length (takeWhile is_ws r)" "j < length r" by auto
      then obtain c3 c4 r' where r: "r = c3 # c4 # r'"
        by (cases r; cases "tl r") auto
      then have "is_ws c3" using j by (cases "is_ws c3") auto
      then show "\<exists>c3 c4 r'. r = c3 # c4 # r' \<and> is_ws c3" using r by simp
    next
      assume "\<exists>c3 c4 r'. r = c3 # c4 # r' \<and> is_ws c3"
      then obtain c3 c4 r' where "r = c3 # c4 # r'" "is_ws c3" by auto
      then have "0 < (1::nat) \<and> 1 \<le> length (takeWhile is_ws r) \<and> 1 < length r" by simp
      then show "\<exists>j. 0 < j \<and> j \<le> length (takeWhile is_ws r) \<and> j < length r" by blast
    qed
    finally have t: "try_ws (length (takeWhile is_ws r)) r \<noteq> None \<longleftrightarrow>
                     (\<exists>c3 c4 r'. r = c3 # c4 # r' \<and> is_ws c3)" .
    show ?thesis
    proof (cases "c1 = hash \<and> c2 = hash")
      case False
      then show ?thesis using l1 l2 by (cases r; cases "tl r") auto
    next
      case True
      then have "match_here l \<noteq> None \<longleftrightarrow> (\<exists>c3 c4 r'. r = c3 # c4 # r' \<and> is_ws c3)"
        using l1 l2 t by simp
      also have "\<dots> \<longleftrightarrow> heading_line l"
        using True l1 l2 by (cases r; cases "tl r") auto
      finally show ?thesis .
    qed
  qed
qed

text \<open>
  Inputs on which the function does what the specification says: white space only; text
  without a heading; two headings on lines of their own.
\<close>

lemma parseSections_samples:
  "parseSections blank_input = []
   \<and> parseSections (units ''hello'') = [\<lparr>heading = units ''Answer'', content = units ''hello''\<rparr>]
   \<and> map heading_line (lines_of two_sections_input) = [True, False, True, False]
   \<and> parseSections two_sections_input =
       [\<lparr>heading = units ''A'', content = units ''foo''\<rparr>,
        \<lparr>heading = units ''B'', content = units ''bar''\<rparr>]"
  by (simp add: blank_input_def two_sections_input_def section_defs)

text \<open>
  C10. The function does not do what the specification says of it on either of two
  inputs, because the white space of the pattern runs over line breaks while the content
  of a section is taken from the end of the line on which the match starts.

  The first input is a line of two hash signs alone, followed by the line \<open>foo\<close>. It is
  not white space, and none of its lines matches the heading pattern, so the result
  should be the one section \<open>Answer\<close> holding the whole input. The function returns
  one section with the heading \<open>foo\<close> and the content \<open>foo\<close>.

  The second input is the line of two hash signs and a space, an empty line, the line
  \<open>## B\<close> and the line \<open>bar\<close>. Its only heading line is the third, with the heading text
  \<open>B\<close>, so the result should be the one section with the heading \<open>B\<close> and the content
  \<open>bar\<close>. The function returns one section with the heading \<open>## B\<close> and the content
  \<open>## B\<close>, line feed, \<open>bar\<close>.
\<close>

theorem parseSections_bare_hashes:
  "lines_of bare_hashes_input = [units ''##'', units ''foo'']
   \<and> filter heading_line (lines_of bare_hashes_input) = []
   \<and> trim bare_hashes_input \<noteq> []
   \<and> parseSections bare_hashes_input = [\<lparr>heading = units ''foo'', content = units ''foo''\<rparr>]
   \<and> parseSections bare_hashes_input \<noteq> [\<lparr>heading = units ''Answer'', content = bare_hashes_input\<rparr>]
   \<and> filter heading_line (lines_of empty_heading_input) = [units ''## B'']
   \<and> trim (heading_text (units ''## B'')) = units ''B''
   \<and> parseSections empty_heading_input =
       [\<lparr>heading = units ''## B'', content = units ''## B'' @ [line_feed] @ units ''bar''\<rparr>]
   \<and> parseSections empty_heading_input \<noteq> [\<lparr>heading = units ''B'', content = units ''bar''\<rparr>]"
  by (simp add: bare_hashes_input_def empty_heading_input_def heading_text_def section_defs)

end
